theory Spec2Isabelle
  imports Main "HOL-Library.Sublist" "HOL-Library.Multiset"
begin

section \<open>JavaScript strings\<close>

text \<open>
  A JavaScript string is modelled as a \<^typ>\<open>string\<close>; each \<^typ>\<open>char\<close> stands for one
  UTF-16 code unit below 256, which covers every character that the patterns of the source
  name. \<^verbatim>\<open>String.prototype.trim\<close> and the regular
  expression class \<^verbatim>\<open>\s\<close> remove the same characters (white space and line terminators);
  \<^verbatim>\<open>.\<close> and \<^verbatim>\<open>[^\r\n]\<close> stop at a line terminator.
\<close>

definition isWhiteSpace :: "char \<Rightarrow> bool" where
  "isWhiteSpace c \<longleftrightarrow>
     c \<in> set [CHR 0x09, CHR 0x0A, CHR 0x0B, CHR 0x0C, CHR 0x0D, CHR 0x20, CHR 0xA0]"

definition isLineTerminator :: "char \<Rightarrow> bool" where
  "isLineTerminator c \<longleftrightarrow> c = CHR 0x0A \<or> c = CHR 0x0D"

definition isHex :: "char \<Rightarrow> bool" where
  "isHex c \<longleftrightarrow> c \<in> set ''abcdef0123456789''"

definition isQuote :: "char \<Rightarrow> bool" where
  "isQuote c \<longleftrightarrow> c = CHR 0x27 \<or> c = CHR 0x22"

definition trim :: "string \<Rightarrow> string" where
  "trim s = rev (dropWhile isWhiteSpace (rev (dropWhile isWhiteSpace s)))"

definition startsWith :: "string \<Rightarrow> string \<Rightarrow> bool" where
  "startsWith s p \<longleftrightarrow> prefix p s"

fun includes_str :: "string \<Rightarrow> string \<Rightarrow> bool" where
  "includes_str [] p \<longleftrightarrow> p = []"
| "includes_str (c # cs) p \<longleftrightarrow> prefix p (c # cs) \<or> includes_str cs p"

text \<open>\<^verbatim>\<open>output.split('\n')\<close>: the empty string gives one empty line.\<close>

fun split_nl :: "string \<Rightarrow> string list" where
  "split_nl [] = [[]]"
| "split_nl (c # cs) =
     (if c = CHR 0x0A then [] # split_nl cs
      else (case split_nl cs of [] \<Rightarrow> [[c]] | l # ls \<Rightarrow> (c # l) # ls))"

text \<open>\<^verbatim>\<open>messageLines.join('\n')\<close>\<close>

fun join_nl :: "string list \<Rightarrow> string" where
  "join_nl [] = []"
| "join_nl [l] = l"
| "join_nl (l # ls) = l @ CHR 0x0A # join_nl ls"

text \<open>\<^verbatim>\<open>match.slice(1, -1)\<close>\<close>

definition slice_1_m1 :: "string \<Rightarrow> string" where
  "slice_1_m1 s = butlast (tl s)"

section \<open>The patterns of the history parser\<close>

text \<open>
  \<^verbatim>\<open>trimmedLine.match(/Rev: ([a-f0-9]+)(.*)/)\<close>: the leftmost position where the literal
  is followed by a hex digit; the result is the pair of groups 1 and 2.
\<close>

fun matchRev :: "string \<Rightarrow> (string \<times> string) option" where
  "matchRev [] = None"
| "matchRev (c # cs) =
     (if prefix ''Rev: '' (c # cs) \<and> takeWhile isHex (drop 5 (c # cs)) \<noteq> []
      then Some (takeWhile isHex (drop 5 (c # cs)),
                 takeWhile (\<lambda>x. \<not> isLineTerminator x) (dropWhile isHex (drop 5 (c # cs))))
      else matchRev cs)"

text \<open>\<^verbatim>\<open>statusPart.match(/\(([^)]+)\)/g)\<close>: all matches from left to right, none overlapping.\<close>

function parenMatches :: "string \<Rightarrow> string list" where
  "parenMatches [] = []"
| "parenMatches (c # cs) =
     (if c = CHR ''('' \<and> takeWhile (\<lambda>x. x \<noteq> CHR '')'') cs \<noteq> []
         \<and> dropWhile (\<lambda>x. x \<noteq> CHR '')'') cs \<noteq> []
      then (c # takeWhile (\<lambda>x. x \<noteq> CHR '')'') cs @ '')'')
           # parenMatches (tl (dropWhile (\<lambda>x. x \<noteq> CHR '')'') cs))
      else parenMatches cs)"
  by pat_completeness auto
termination
proof (relation "measure length")
  fix c :: char and cs :: string
  have "length (tl (dropWhile (\<lambda>x. x \<noteq> CHR '')'') cs)) \<le> length cs"
    using length_dropWhile_le [of "\<lambda>x. x \<noteq> CHR '')''" cs] by simp
  then show "(tl (dropWhile (\<lambda>x. x \<noteq> CHR '')'') cs), c # cs) \<in> measure length"
    by simp
qed simp_all

definition branchLabelsOf :: "string \<Rightarrow> string list" where
  "branchLabelsOf statusPart =
     filter (\<lambda>label. label \<noteq> ''current'' \<and> label \<noteq> ''head'')
       (map slice_1_m1 (parenMatches statusPart))"

text \<open>\<^verbatim>\<open>trimmedLine.match(/Parent: ([a-f0-9]+|<base>)/)\<close>, group 1.\<close>

fun matchParent :: "string \<Rightarrow> string option" where
  "matchParent [] = None"
| "matchParent (c # cs) =
     (if prefix ''Parent: '' (c # cs) \<and> takeWhile isHex (drop 8 (c # cs)) \<noteq> []
      then Some (takeWhile isHex (drop 8 (c # cs)))
      else if prefix ''Parent: <base>'' (c # cs) then Some ''<base>''
      else matchParent cs)"

text \<open>\<^verbatim>\<open>trimmedLine.match(/Create Date: (.+)/)\<close>, group 1.\<close>

fun matchDate :: "string \<Rightarrow> string option" where
  "matchDate [] = None"
| "matchDate (c # cs) =
     (if prefix ''Create Date: '' (c # cs)
         \<and> takeWhile (\<lambda>x. \<not> isLineTerminator x) (drop 13 (c # cs)) \<noteq> []
      then Some (takeWhile (\<lambda>x. \<not> isLineTerminator x) (drop 13 (c # cs)))
      else matchDate cs)"

text \<open>\<^verbatim>\<open>line.match(/([a-f0-9]+)/)\<close>, group 1: the leftmost longest run of hex digits.\<close>

definition matchHex :: "string \<Rightarrow> string option" where
  "matchHex line =
     (if dropWhile (\<lambda>x. \<not> isHex x) line = [] then None
      else Some (takeWhile isHex (dropWhile (\<lambda>x. \<not> isHex x) line)))"

section \<open>Revision records\<close>

text \<open>
  \<^verbatim>\<open>interface RevisionInfo\<close>. The field \<^verbatim>\<open>id\<close> is \<open>id_r\<close> here. \<^verbatim>\<open>null\<close> and an absent
  optional field are \<^const>\<open>None\<close>.
\<close>

record RevisionInfo =
  id_r :: string
  shortId :: string
  message :: string
  branchLabels :: "string list"
  downRevision :: "string option"
  isCurrent :: bool
  isHead :: bool
  isMerge :: bool
  author :: "string option"
  date :: "string option"

text \<open>
  \<^verbatim>\<open>Partial<RevisionInfo>\<close>: every field may be undefined (\<^const>\<open>None\<close>). For
  \<^verbatim>\<open>downRevision\<close>, \<open>Some None\<close> is an assigned \<^verbatim>\<open>null\<close>.
\<close>

record PartialRevisionInfo =
  p_id :: "string option"
  p_shortId :: "string option"
  p_message :: "string option"
  p_branchLabels :: "string list option"
  p_downRevision :: "string option option"
  p_isCurrent :: "bool option"
  p_isHead :: "bool option"
  p_isMerge :: "bool option"
  p_author :: "string option"
  p_date :: "string option"

definition emptyPartial :: PartialRevisionInfo where
  "emptyPartial = \<lparr>p_id = None, p_shortId = None, p_message = None, p_branchLabels = None,
     p_downRevision = None, p_isCurrent = None, p_isHead = None, p_isMerge = None,
     p_author = None, p_date = None\<rparr>"

text \<open>\<^verbatim>\<open>x || ''\<close> on an optional string, and the truth value of \<^verbatim>\<open>x\<close>.\<close>

definition orEmpty :: "string option \<Rightarrow> string" where
  "orEmpty x = (case x of None \<Rightarrow> [] | Some s \<Rightarrow> s)"

definition truthy :: "string option \<Rightarrow> bool" where
  "truthy x = (case x of None \<Rightarrow> False | Some s \<Rightarrow> s \<noteq> [])"

definition completeRevisionInfo ::
  "PartialRevisionInfo \<Rightarrow> string list \<Rightarrow> string list \<Rightarrow> RevisionInfo" where
  "completeRevisionInfo partial currentRevisions headRevisions =
     \<lparr>id_r = orEmpty (p_id partial),
      shortId = orEmpty (p_shortId partial),
      message = orEmpty (p_message partial),
      branchLabels = (case p_branchLabels partial of None \<Rightarrow> [] | Some ls \<Rightarrow> ls),
      downRevision = (case p_downRevision partial of
                        Some (Some s) \<Rightarrow> if s = [] then None else Some s
                      | _ \<Rightarrow> None),
      isCurrent = (orEmpty (p_id partial) \<in> set currentRevisions),
      isHead = (orEmpty (p_id partial) \<in> set headRevisions),
      isMerge = (case p_isMerge partial of None \<Rightarrow> False | Some b \<Rightarrow> b),
      author = p_author partial,
      date = p_date partial\<rparr>"

section \<open>The history parser\<close>

record ParseState =
  revisions :: "RevisionInfo list"
  currentRevision :: PartialRevisionInfo
  messageLines :: "string list"
  inMessage :: bool

definition initState :: ParseState where
  "initState = \<lparr>revisions = [], currentRevision = emptyPartial, messageLines = [],
     inMessage = False\<rparr>"

text \<open>
  The block that closes a record, at a header line and after the loop: when the accumulator
  has an id, the message lines are joined and the record is pushed.
\<close>

definition pushCurrent :: "string list \<Rightarrow> string list \<Rightarrow> ParseState \<Rightarrow> RevisionInfo list" where
  "pushCurrent currentRevisions headRevisions st =
     (if truthy (p_id (currentRevision st))
      then revisions st @
        [completeRevisionInfo
           (if messageLines st \<noteq> []
            then (currentRevision st)\<lparr>p_message := Some (trim (join_nl (messageLines st)))\<rparr>
            else currentRevision st)
           currentRevisions headRevisions]
      else revisions st)"

definition startRevision :: "string \<Rightarrow> PartialRevisionInfo" where
  "startRevision trimmedLine =
     (case matchRev trimmedLine of
        None \<Rightarrow> emptyPartial
      | Some (i, statusPart) \<Rightarrow>
          emptyPartial\<lparr>p_id := Some i, p_shortId := Some (take 8 i),
            p_isCurrent := Some (includes_str statusPart ''(current)''),
            p_isHead := Some (includes_str statusPart ''(head)''),
            p_branchLabels := Some (branchLabelsOf statusPart)\<rparr>)"

text \<open>The body of the loop over the lines.\<close>

definition parseLine :: "string list \<Rightarrow> string list \<Rightarrow> ParseState \<Rightarrow> string \<Rightarrow> ParseState" where
  "parseLine currentRevisions headRevisions st line =
     (let trimmedLine = trim line in
      if startsWith trimmedLine ''Rev:'' then
        \<lparr>revisions = pushCurrent currentRevisions headRevisions st,
         currentRevision = startRevision trimmedLine,
         messageLines = [],
         inMessage = False\<rparr>
      else if startsWith trimmedLine ''Parent:'' then
        (case matchParent trimmedLine of
           None \<Rightarrow> st
         | Some p \<Rightarrow> st\<lparr>currentRevision := (currentRevision st)
                        \<lparr>p_downRevision := Some (if p = ''<base>'' then None else Some p)\<rparr>\<rparr>)
      else if startsWith trimmedLine ''Path:'' then st\<lparr>inMessage := False\<rparr>
      else if startsWith trimmedLine ''Merge point:'' then
        st\<lparr>currentRevision := (currentRevision st)\<lparr>p_isMerge := Some True\<rparr>\<rparr>
      else if startsWith trimmedLine ''Revision ID:'' \<or> startsWith trimmedLine ''Revises:''
              \<or> startsWith trimmedLine ''Create Date:'' then
        (if startsWith trimmedLine ''Create Date:'' then
           (case matchDate trimmedLine of
              None \<Rightarrow> st
            | Some d \<Rightarrow> st\<lparr>currentRevision := (currentRevision st)\<lparr>p_date := Some d\<rparr>\<rparr>)
         else st)\<lparr>inMessage := False\<rparr>
      else if trimmedLine \<noteq> [] \<and> \<not> inMessage st \<and> \<not> startsWith trimmedLine ''INFO '' then
        st\<lparr>inMessage := True, messageLines := messageLines st @ [trimmedLine]\<rparr>
      else if inMessage st \<and> trimmedLine \<noteq> [] \<and> \<not> startsWith trimmedLine ''INFO '' then
        st\<lparr>messageLines := messageLines st @ [trimmedLine]\<rparr>
      else if inMessage st \<and> trimmedLine = [] then st\<lparr>inMessage := False\<rparr>
      else st)"

text \<open>The loop and the closing block: the records in the order they are pushed.\<close>

definition parseLines :: "string list \<Rightarrow> string list \<Rightarrow> string list \<Rightarrow> RevisionInfo list" where
  "parseLines currentRevisions headRevisions lines =
     pushCurrent currentRevisions headRevisions
       (foldl (parseLine currentRevisions headRevisions) initState lines)"

definition parseHistory :: "string \<Rightarrow> string list \<Rightarrow> string list \<Rightarrow> RevisionInfo list" where
  "parseHistory output currentRevisions headRevisions =
     rev (parseLines currentRevisions headRevisions (split_nl output))"

section \<open>The status listings\<close>

definition parseCurrentRevisions :: "string \<Rightarrow> string list" where
  "parseCurrentRevisions output = List.map_filter matchHex (split_nl output)"

definition parseHeadRevisions :: "string \<Rightarrow> string list" where
  "parseHeadRevisions output = List.map_filter matchHex (split_nl output)"

section \<open>Graph queries of the view\<close>

text \<open>\<^verbatim>\<open>revisions.find(r => r.id === i)\<close>: the first node with that id, if any.\<close>

definition findById :: "RevisionInfo list \<Rightarrow> string \<Rightarrow> RevisionInfo option" where
  "findById revs i = find (\<lambda>r. id_r r = i) revs"

text \<open>
  The \<^verbatim>\<open>while\<close> loop of \<^verbatim>\<open>isAncestor\<close>, on the variable \<^verbatim>\<open>current\<close> (\<^const>\<open>None\<close> is
  \<^verbatim>\<open>undefined\<close>). The loop has no bound, so the result is an option: \<^const>\<open>None\<close> is a walk
  that never returns.
\<close>

partial_function (option) isAncestor_loop ::
  "RevisionInfo list \<Rightarrow> RevisionInfo \<Rightarrow> RevisionInfo option \<Rightarrow> bool option" where
  "isAncestor_loop revs ancestor current =
     (case current of
        None \<Rightarrow> Some False
      | Some c \<Rightarrow>
          (case downRevision c of
             None \<Rightarrow> Some False
           | Some p \<Rightarrow>
               if p = [] then Some False
               else if p = id_r ancestor then Some True
               else isAncestor_loop revs ancestor (findById revs p)))"

declare isAncestor_loop.simps [code]

definition isAncestor :: "RevisionInfo list \<Rightarrow> RevisionInfo \<Rightarrow> RevisionInfo \<Rightarrow> bool option" where
  "isAncestor revs ancestor descendant = isAncestor_loop revs ancestor (Some descendant)"

text \<open>
  \<^verbatim>\<open>revisions.some(r => r.isCurrent && isAncestor(revision, r))\<close>: from left to right, stopping
  at the first node that gives true; a test that never returns keeps \<^verbatim>\<open>some\<close> from returning.
\<close>

fun someCurrentDescendant ::
  "RevisionInfo list \<Rightarrow> RevisionInfo \<Rightarrow> RevisionInfo list \<Rightarrow> bool option" where
  "someCurrentDescendant revs revision [] = Some False"
| "someCurrentDescendant revs revision (r # rs) =
     (if isCurrent r then
        (case isAncestor revs revision r of
           None \<Rightarrow> None
         | Some True \<Rightarrow> Some True
         | Some False \<Rightarrow> someCurrentDescendant revs revision rs)
      else someCurrentDescendant revs revision rs)"

definition isApplied :: "RevisionInfo list \<Rightarrow> RevisionInfo \<Rightarrow> bool option" where
  "isApplied revs revision =
     (if isCurrent revision then Some True else someCurrentDescendant revs revision revs)"

text \<open>
  The edges of a graph, as pairs (parent id, child id): node \<open>B\<close> is a child of node \<open>A\<close> when
  \<open>downRevision B\<close> is the id of \<open>A\<close>.
\<close>

definition parentEdges :: "RevisionInfo list \<Rightarrow> (string \<times> string) set" where
  "parentEdges revs =
     (\<lambda>r. (orEmpty (downRevision r), id_r r)) ` {r \<in> set revs. truthy (downRevision r)}"

section \<open>Rewriting the parent of a revision file\<close>

text \<open>
  \<^verbatim>\<open>/^Revises:\s*[^\r\n]*/m\<close>: the first line start followed by the keyword; the match runs
  over the white space after it (line breaks are white space) and then to the end of the
  line reached. The result is the text before the match, the match and the text after
  it. The flag says whether the position is a line start.
\<close>

fun searchRevisesFrom :: "bool \<Rightarrow> string \<Rightarrow> (string \<times> string \<times> string) option" where
  "searchRevisesFrom atStart [] = None"
| "searchRevisesFrom atStart (c # cs) =
     (if atStart \<and> prefix ''Revises:'' (c # cs) then
        Some ([],
              ''Revises:'' @ takeWhile isWhiteSpace (drop 8 (c # cs))
                @ takeWhile (\<lambda>x. \<not> isLineTerminator x) (dropWhile isWhiteSpace (drop 8 (c # cs))),
              dropWhile (\<lambda>x. \<not> isLineTerminator x) (dropWhile isWhiteSpace (drop 8 (c # cs))))
      else map_option (\<lambda>(b, m, a). (c # b, m, a)) (searchRevisesFrom (isLineTerminator c) cs))"

definition searchRevises :: "string \<Rightarrow> (string \<times> string \<times> string) option" where
  "searchRevises text = searchRevisesFrom True text"

text \<open>
  \<^verbatim>\<open>/down_revision\s*=\s*['"][^'"]*['"]/\<close> at the start of a string. First the part up to
  the opening quote, which gives the text after that quote; then the value up to the next
  quote, which gives the match and the rest.
\<close>

definition assignHead :: "string \<Rightarrow> string option" where
  "assignHead s =
     (if prefix ''down_revision'' s then
        (case dropWhile isWhiteSpace (drop 13 s) of
           [] \<Rightarrow> None
         | e # r \<Rightarrow>
             if e = CHR ''='' then
               (case dropWhile isWhiteSpace r of
                  [] \<Rightarrow> None
                | q # v \<Rightarrow> if isQuote q then Some v else None)
             else None)
      else None)"

definition matchDownRevision :: "string \<Rightarrow> (string \<times> string) option" where
  "matchDownRevision s =
     (case assignHead s of
        None \<Rightarrow> None
      | Some v \<Rightarrow>
          (case dropWhile (\<lambda>x. \<not> isQuote x) v of
             [] \<Rightarrow> None
           | q # a \<Rightarrow> Some (take (length s - length a) s, a)))"

fun searchDownRevision :: "string \<Rightarrow> (string \<times> string \<times> string) option" where
  "searchDownRevision [] = None"
| "searchDownRevision (c # cs) =
     (case matchDownRevision (c # cs) of
        Some (m, a) \<Rightarrow> Some ([], m, a)
      | None \<Rightarrow> map_option (\<lambda>(b, m, a). (c # b, m, a)) (searchDownRevision cs))"

text \<open>
  The replacement text of \<^verbatim>\<open>String.prototype.replace\<close> for a pattern without groups:
  \<^verbatim>\<open>$$\<close> is a dollar sign, \<^verbatim>\<open>$&\<close> the match, \<^verbatim>\<open>$`\<close> the text before it and \<^verbatim>\<open>$'\<close> the text
  after it; every other character stands for itself.
\<close>

fun getSubstitution :: "string \<Rightarrow> string \<Rightarrow> string \<Rightarrow> string \<Rightarrow> string" where
  "getSubstitution [] m b a = []"
| "getSubstitution [c] m b a = [c]"
| "getSubstitution (c # d # cs) m b a =
     (if c = CHR ''$'' \<and> d = CHR ''$'' then CHR ''$'' # getSubstitution cs m b a
      else if c = CHR ''$'' \<and> d = CHR ''&'' then m @ getSubstitution cs m b a
      else if c = CHR ''$'' \<and> d = CHR 0x60 then b @ getSubstitution cs m b a
      else if c = CHR ''$'' \<and> d = CHR 0x27 then a @ getSubstitution cs m b a
      else c # getSubstitution (d # cs) m b a)"

definition replaceRevises :: "string \<Rightarrow> string \<Rightarrow> string" where
  "replaceRevises text replacement =
     (case searchRevises text of
        None \<Rightarrow> text
      | Some (b, m, a) \<Rightarrow> b @ getSubstitution replacement m b a @ a)"

definition replaceDownRevision :: "string \<Rightarrow> string \<Rightarrow> string" where
  "replaceDownRevision text replacement =
     (case searchDownRevision text of
        None \<Rightarrow> text
      | Some (b, m, a) \<Rightarrow> b @ getSubstitution replacement m b a @ a)"

text \<open>
  The text that \<^verbatim>\<open>modifyDependency\<close> computes from the text of the revision file and the
  new parent, between reading the document and writing it back.
\<close>

definition modifyDependency :: "string \<Rightarrow> string \<Rightarrow> string" where
  "modifyDependency text newParent =
     (let updatedText1 = replaceRevises text (''Revises: '' @ newParent);
          updatedText2 = replaceDownRevision updatedText1
            (''down_revision = '' @ [CHR 0x22] @ newParent @ [CHR 0x22])
      in if newParent = ''<base>'' \<or> newParent = ''None''
         then replaceDownRevision (replaceRevises updatedText2 ''Revises:'')
                ''down_revision = None''
         else updatedText2)"

section \<open>Notions for stating the parser's properties\<close>

text \<open>
  The id that a line gives when it is a valid header: the line starts with \<^verbatim>\<open>Rev:\<close> after
  trimming and the header pattern matches it.
\<close>

definition headerId :: "string \<Rightarrow> string option" where
  "headerId line =
     (if startsWith (trim line) ''Rev:'' then map_option fst (matchRev (trim line)) else None)"

definition headerIds :: "string list \<Rightarrow> string list" where
  "headerIds lines = List.map_filter headerId lines"

text \<open>
  The accumulator is sound when its id, if set, is a non-empty run of hex digits and its
  short id is cut from it. The pending id is the id of the record being accumulated.
\<close>

definition accumulatorOk :: "PartialRevisionInfo \<Rightarrow> bool" where
  "accumulatorOk partial =
     (case p_id partial of
        None \<Rightarrow> True
      | Some i \<Rightarrow> i \<noteq> [] \<and> (\<forall>c\<in>set i. isHex c) \<and> p_shortId partial = Some (take 8 i))"

definition pendingId :: "ParseState \<Rightarrow> string list" where
  "pendingId st = (case p_id (currentRevision st) of None \<Rightarrow> [] | Some i \<Rightarrow> [i])"

text \<open>What holds of a record pushed from a sound accumulator.\<close>

definition recordOk :: "string list \<Rightarrow> string list \<Rightarrow> RevisionInfo \<Rightarrow> bool" where
  "recordOk cs hs r \<longleftrightarrow>
     id_r r \<noteq> [] \<and> (\<forall>c\<in>set (id_r r). isHex c) \<and> shortId r = take 8 (id_r r)
     \<and> isCurrent r = (id_r r \<in> set cs) \<and> isHead r = (id_r r \<in> set hs)"

section \<open>Notions for stating the planner's properties\<close>

text \<open>A character at which the part of the pattern before the value cannot go on.\<close>

definition stopChar :: "char \<Rightarrow> bool" where
  "stopChar h \<longleftrightarrow> h \<notin> set ''own_revision'' \<and> \<not> isWhiteSpace h \<and> h \<noteq> CHR ''='' \<and> \<not> isQuote h"

section \<open>Example nodes\<close>

text \<open>A node with an id, a parent and a current flag, and nothing else.\<close>

abbreviation plainNode :: "string \<Rightarrow> string option \<Rightarrow> bool \<Rightarrow> RevisionInfo" where
  "plainNode i d c \<equiv> \<lparr>id_r = i, shortId = i, message = [], branchLabels = [],
     downRevision = d, isCurrent = c, isHead = False, isMerge = False, author = None,
     date = None\<rparr>"

section \<open>Facts about the ancestor walk\<close>

lemma findById_Some: "findById revs i = Some r \<Longrightarrow> r \<in> set revs \<and> id_r r = i"
  by (auto simp: findById_def find_Some_iff)

lemma isAncestor_loop_None [simp]: "isAncestor_loop revs a None = Some False"
  by (subst isAncestor_loop.simps) simp

lemma isAncestor_loop_Some:
  "isAncestor_loop revs a (Some c) =
     (case downRevision c of
        None \<Rightarrow> Some False
      | Some p \<Rightarrow>
          if p = [] then Some False
          else if p = id_r a then Some True
          else isAncestor_loop revs a (findById revs p))"
  by (subst isAncestor_loop.simps) simp

lemma isAncestor_loop_cycle:
  assumes closed: "\<And>c. c \<in> S \<Longrightarrow> \<exists>p c'. downRevision c = Some p \<and> p \<noteq> [] \<and> p \<noteq> id_r a
                      \<and> findById revs p = Some c' \<and> c' \<in> S"
    and c: "c \<in> S"
  shows "isAncestor_loop revs a (Some c) = None"
proof -
  have "revs' = revs \<and> a' = a \<longrightarrow> (\<forall>c. cur = Some c \<longrightarrow> c \<notin> S)"
    if "isAncestor_loop revs' a' cur = Some y" for revs' a' cur y
  proof (rule isAncestor_loop.raw_induct
      [where P = "\<lambda>revs' a' cur y. revs' = revs \<and> a' = a \<longrightarrow> (\<forall>c. cur = Some c \<longrightarrow> c \<notin> S)",
        OF _ that])
    fix f :: "RevisionInfo list \<Rightarrow> RevisionInfo \<Rightarrow> RevisionInfo option \<Rightarrow> bool option"
      and revs' :: "RevisionInfo list" and a' :: RevisionInfo and cur :: "RevisionInfo option" and y :: bool
    assume IH: "\<And>r b k z. f r b k = Some z \<Longrightarrow> r = revs \<and> b = a \<longrightarrow> (\<forall>c. k = Some c \<longrightarrow> c \<notin> S)"
      and step: "(case cur of None \<Rightarrow> Some False
        | Some c \<Rightarrow>
            case downRevision c of None \<Rightarrow> Some False
            | Some p \<Rightarrow>
                if p = [] then Some False
                else if p = id_r a' then Some True
                     else f revs' a' (findById revs' p)) = Some y"
    show "revs' = revs \<and> a' = a \<longrightarrow> (\<forall>c. cur = Some c \<longrightarrow> c \<notin> S)"
    proof (intro allI impI notI, elim conjE)
      fix c assume eq: "revs' = revs" "a' = a" "cur = Some c" and "c \<in> S"
      from closed [OF this(4)] obtain p c' where
        p: "downRevision c = Some p" "p \<noteq> []" "p \<noteq> id_r a" "findById revs p = Some c'" "c' \<in> S"
        by blast
      from step eq p have "f revs a (Some c') = Some y" by simp
      from IH [OF this] p(5) show False by simp
    qed
  qed
  then show ?thesis using c by (cases "isAncestor_loop revs a (Some c)") auto
qed

lemma isAncestor_loop_cycle_set:
  assumes "\<forall>c\<in>set cs. (case downRevision c of
              None \<Rightarrow> False
            | Some p \<Rightarrow> p \<noteq> [] \<and> p \<noteq> id_r a
                \<and> (case findById revs p of None \<Rightarrow> False | Some c' \<Rightarrow> c' \<in> set cs))"
    and "c \<in> set cs"
  shows "isAncestor_loop revs a (Some c) = None"
proof (rule isAncestor_loop_cycle [where S = "set cs"])
  fix c assume "c \<in> set cs"
  with assms(1) show "\<exists>p c'. downRevision c = Some p \<and> p \<noteq> [] \<and> p \<noteq> id_r a
                      \<and> findById revs p = Some c' \<and> c' \<in> set cs"
    by (fastforce split: option.splits)
qed (rule assms(2))

lemma finite_parentEdges: "finite (parentEdges revs)"
  by (simp add: parentEdges_def)

lemma parentEdgesI:
  "c \<in> set revs \<Longrightarrow> downRevision c = Some p \<Longrightarrow> p \<noteq> [] \<Longrightarrow> (p, id_r c) \<in> parentEdges revs"
  by (force simp: parentEdges_def truthy_def orEmpty_def)

lemma isAncestor_loop_terminates_in:
  assumes "acyclic (parentEdges revs)"
  shows "c \<in> set revs \<Longrightarrow> isAncestor_loop revs a (Some c) \<noteq> None"
proof -
  have wf: "wf (parentEdges revs)"
    using assms finite_parentEdges by (rule finite_acyclic_wf [rotated])
  have "\<forall>c. c \<in> set revs \<and> id_r c = i \<longrightarrow> isAncestor_loop revs a (Some c) \<noteq> None" for i
    using wf
  proof (induction i rule: wf_induct_rule)
    case (less i)
    show ?case
    proof (intro allI impI, elim conjE)
      fix c assume c: "c \<in> set revs" "id_r c = i"
      show "isAncestor_loop revs a (Some c) \<noteq> None"
      proof (cases "downRevision c")
        case None
        then show ?thesis by (simp add: isAncestor_loop_Some)
      next
        case (Some p)
        show ?thesis
        proof (cases "p = [] \<or> p = id_r a")
          case True
          with Some show ?thesis by (auto simp: isAncestor_loop_Some)
        next
          case False
          show ?thesis
          proof (cases "findById revs p")
            case None
            with Some False show ?thesis by (simp add: isAncestor_loop_Some)
          next
            case found: (Some c')
            then have c': "c' \<in> set revs" "id_r c' = p" by (auto dest: findById_Some)
            have "(p, i) \<in> parentEdges revs"
              using parentEdgesI [OF c(1) Some] False c(2) by simp
            from less [OF this] c' have "isAncestor_loop revs a (Some c') \<noteq> None"
              by blast
            with found Some False show ?thesis
              by (simp add: isAncestor_loop_Some)
          qed
        qed
      qed
    qed
  qed
  then show "c \<in> set revs \<Longrightarrow> isAncestor_loop revs a (Some c) \<noteq> None" by blast
qed

lemma isAncestor_loop_terminates:
  assumes "acyclic (parentEdges revs)"
  shows "isAncestor_loop revs a cur \<noteq> None"
proof (cases cur)
  case None
  then show ?thesis by simp
next
  case (Some b)
  show ?thesis
  proof (cases "downRevision b")
    case None
    with Some show ?thesis by (simp add: isAncestor_loop_Some)
  next
    case down: (Some p)
    show ?thesis
    proof (cases "p = [] \<or> p = id_r a")
      case True
      with Some down show ?thesis by (auto simp: isAncestor_loop_Some)
    next
      case False
      show ?thesis
      proof (cases "findById revs p")
        case None
        with Some down False show ?thesis by (simp add: isAncestor_loop_Some)
      next
        case found: (Some c')
        then have "c' \<in> set revs" by (auto dest: findById_Some)
        from isAncestor_loop_terminates_in [OF assms this]
        have "isAncestor_loop revs a (Some c') \<noteq> None" .
        with found Some down False show ?thesis
          by (simp add: isAncestor_loop_Some)
      qed
    qed
  qed
qed

text \<open>A walk that answers true has passed along edges from the id of the ancestor.\<close>

lemma isAncestor_loop_True_edges:
  assumes "isAncestor_loop revs a cur = Some True"
  shows "\<exists>c. cur = Some c \<and> (c \<in> set revs \<longrightarrow> (id_r a, id_r c) \<in> (parentEdges revs)\<^sup>+)"
proof (rule isAncestor_loop.raw_induct
    [where P = "\<lambda>revs a cur y. y \<longrightarrow>
       (\<exists>c. cur = Some c \<and> (c \<in> set revs \<longrightarrow> (id_r a, id_r c) \<in> (parentEdges revs)\<^sup>+))",
      OF _ assms, THEN mp])
  show True ..
next
  fix f :: "RevisionInfo list \<Rightarrow> RevisionInfo \<Rightarrow> RevisionInfo option \<Rightarrow> bool option"
    and revs :: "RevisionInfo list" and a :: RevisionInfo and cur :: "RevisionInfo option" and y :: bool
  assume IH: "\<And>r b k z. f r b k = Some z \<Longrightarrow> z \<longrightarrow>
       (\<exists>c. k = Some c \<and> (c \<in> set r \<longrightarrow> (id_r b, id_r c) \<in> (parentEdges r)\<^sup>+))"
    and step: "(case cur of None \<Rightarrow> Some False
        | Some c \<Rightarrow>
            case downRevision c of None \<Rightarrow> Some False
            | Some p \<Rightarrow>
                if p = [] then Some False
                else if p = id_r a then Some True
                     else f revs a (findById revs p)) = Some y"
  show "y \<longrightarrow> (\<exists>c. cur = Some c \<and> (c \<in> set revs \<longrightarrow> (id_r a, id_r c) \<in> (parentEdges revs)\<^sup>+))"
  proof
    assume y
    with step obtain c p where c: "cur = Some c" "downRevision c = Some p" "p \<noteq> []"
      by (auto split: option.splits if_splits)
    show "\<exists>c. cur = Some c \<and> (c \<in> set revs \<longrightarrow> (id_r a, id_r c) \<in> (parentEdges revs)\<^sup>+)"
    proof (intro exI conjI impI)
      show "cur = Some c" by fact
      assume "c \<in> set revs"
      then have edge: "(p, id_r c) \<in> parentEdges revs" using c by (simp add: parentEdgesI)
      show "(id_r a, id_r c) \<in> (parentEdges revs)\<^sup>+"
      proof (cases "p = id_r a")
        case True
        with edge show ?thesis by auto
      next
        case False
        with step c \<open>y\<close> have "f revs a (findById revs p) = Some True" by simp
        from IH [OF this] obtain c' where c': "findById revs p = Some c'"
          "c' \<in> set revs \<longrightarrow> (id_r a, id_r c') \<in> (parentEdges revs)\<^sup>+" by auto
        from findById_Some [OF c'(1)] c'(2) have "(id_r a, p) \<in> (parentEdges revs)\<^sup>+" by simp
        with edge show ?thesis by (auto intro: trancl_into_trancl)
      qed
    qed
  qed
qed

text \<open>The walk depends on the graph only through the lookup by id.\<close>

lemma isAncestor_loop_lookup_Some:
  assumes "isAncestor_loop revs a cur = Some y"
  shows "findById revs' = findById revs \<longrightarrow> isAncestor_loop revs' a cur = Some y"
proof (rule isAncestor_loop.raw_induct
    [where P = "\<lambda>revs a cur y. findById revs' = findById revs \<longrightarrow> isAncestor_loop revs' a cur = Some y",
      OF _ assms])
  fix f :: "RevisionInfo list \<Rightarrow> RevisionInfo \<Rightarrow> RevisionInfo option \<Rightarrow> bool option"
    and revs :: "RevisionInfo list" and a :: RevisionInfo and cur :: "RevisionInfo option" and y :: bool
  assume IH: "\<And>r b k z. f r b k = Some z \<Longrightarrow>
        findById revs' = findById r \<longrightarrow> isAncestor_loop revs' b k = Some z"
    and step: "(case cur of None \<Rightarrow> Some False
        | Some c \<Rightarrow>
            case downRevision c of None \<Rightarrow> Some False
            | Some p \<Rightarrow>
                if p = [] then Some False
                else if p = id_r a then Some True
                     else f revs a (findById revs p)) = Some y"
  show "findById revs' = findById revs \<longrightarrow> isAncestor_loop revs' a cur = Some y"
  proof
    assume eq: "findById revs' = findById revs"
    show "isAncestor_loop revs' a cur = Some y"
    proof (cases cur)
      case None
      with step show ?thesis by simp
    next
      case (Some c)
      show ?thesis
      proof (cases "downRevision c")
        case None
        with step Some show ?thesis by (simp add: isAncestor_loop_Some)
      next
        case down: (Some p)
        show ?thesis
        proof (cases "p = [] \<or> p = id_r a")
          case True
          with step Some down show ?thesis by (auto simp: isAncestor_loop_Some)
        next
          case False
          with step Some down have "f revs a (findById revs p) = Some y" by simp
          from IH [OF this] eq have "isAncestor_loop revs' a (findById revs p) = Some y" by simp
          with False Some down eq show ?thesis by (simp add: isAncestor_loop_Some)
        qed
      qed
    qed
  qed
qed

lemma isAncestor_loop_lookup:
  assumes "findById revs' = findById revs"
  shows "isAncestor_loop revs' a cur = isAncestor_loop revs a cur"
proof (cases "isAncestor_loop revs a cur")
  case (Some y)
  with isAncestor_loop_lookup_Some [OF Some] assms show ?thesis by simp
next
  case None
  show ?thesis
  proof (cases "isAncestor_loop revs' a cur")
    case (Some y)
    from isAncestor_loop_lookup_Some [OF Some, of revs] assms None show ?thesis by simp
  next
    case None
    with \<open>isAncestor_loop revs a cur = None\<close> show ?thesis by simp
  qed
qed

lemma findById_perm:
  assumes d: "distinct (map id_r revs)" and s: "set revs' = set revs"
  shows "findById revs' = findById revs"
proof
  fix i
  show "findById revs' i = findById revs i"
  proof (cases "findById revs i")
    case None
    then have "\<forall>r\<in>set revs. id_r r \<noteq> i" by (auto simp: findById_def find_None_iff)
    with s have "findById revs' i = None" by (auto simp: findById_def find_None_iff)
    with None show ?thesis by simp
  next
    case (Some r)
    then have r: "r \<in> set revs" "id_r r = i" by (auto dest: findById_Some)
    with s have "findById revs' i \<noteq> None" by (auto simp: findById_def find_None_iff)
    then obtain r' where r': "findById revs' i = Some r'" by auto
    then have "r' \<in> set revs" "id_r r' = i" using s by (auto dest: findById_Some)
    with r d have "r' = r" by (auto simp: distinct_map dest: inj_onD)
    with r' Some show ?thesis by simp
  qed
qed

lemma someCurrentDescendant_total:
  assumes "\<And>c. c \<in> set rs \<Longrightarrow> isCurrent c \<Longrightarrow> isAncestor revs n c \<noteq> None"
  shows "someCurrentDescendant revs n rs =
           Some (\<exists>c\<in>set rs. isCurrent c \<and> isAncestor revs n c = Some True)"
  using assms
proof (induction rs)
  case Nil
  show ?case by simp
next
  case (Cons r rs)
  then have IH: "someCurrentDescendant revs n rs =
           Some (\<exists>c\<in>set rs. isCurrent c \<and> isAncestor revs n c = Some True)" by simp
  show ?case
  proof (cases "isCurrent r")
    case False
    with IH show ?thesis by simp
  next
    case True
    with Cons.prems [of r] obtain y where y: "isAncestor revs n r = Some y" by auto
    with True IH show ?thesis by (cases y) auto
  qed
qed


section \<open>The ancestor test\<close>




text \<open>
  Claim C8, as the code has it. On a graph whose edges form no cycle, no node of the graph
  is its own ancestor. When the ids of the graph are pairwise distinct, every reordering
  of the node sequence gives the same answer, or the same failure to answer, for every
  pair of nodes.
\<close>

theorem isAncestor_irreflexive_order_independent:
  "(acyclic (parentEdges revs) \<longrightarrow> (\<forall>a\<in>set revs. isAncestor revs a a = Some False))
   \<and> (distinct (map id_r revs) \<and> mset revs' = mset revs \<longrightarrow>
        (\<forall>a b. isAncestor revs' a b = isAncestor revs a b))"
proof (intro conjI impI ballI allI)
  fix a assume ac: "acyclic (parentEdges revs)" and a: "a \<in> set revs"
  from isAncestor_loop_terminates [OF ac, of a "Some a"]
  obtain y where y: "isAncestor_loop revs a (Some a) = Some y" by auto
  have "\<not> y"
  proof
    assume y
    with y have "isAncestor_loop revs a (Some a) = Some True" by simp
    from isAncestor_loop_True_edges [OF this] a
    have "(id_r a, id_r a) \<in> (parentEdges revs)\<^sup>+" by simp
    with ac show False by (simp add: acyclic_def)
  qed
  with y show "isAncestor revs a a = Some False" by (simp add: isAncestor_def)
next
  fix a b assume "distinct (map id_r revs) \<and> mset revs' = mset revs"
  then have "distinct (map id_r revs)" "set revs' = set revs"
    by (auto dest: mset_eq_setD)
  then have "findById revs' = findById revs" by (rule findById_perm)
  then show "isAncestor revs' a b = isAncestor revs a b"
    unfolding isAncestor_def by (rule isAncestor_loop_lookup)
qed

theorem isAncestor_irreflexive_order_independent_witness:
  "acyclic (parentEdges [plainNode ''aa'' None False, plainNode ''bb'' (Some ''aa'') False])
   \<and> plainNode ''bb'' (Some ''aa'') False
       \<in> set [plainNode ''aa'' None False, plainNode ''bb'' (Some ''aa'') False]
   \<and> isAncestor [plainNode ''aa'' None False, plainNode ''bb'' (Some ''aa'') False]
       (plainNode ''bb'' (Some ''aa'') False) (plainNode ''bb'' (Some ''aa'') False) = Some False
   \<and> distinct (map id_r [plainNode ''aa'' None False, plainNode ''bb'' (Some ''aa'') False])
   \<and> mset [plainNode ''bb'' (Some ''aa'') False, plainNode ''aa'' None False]
       = mset [plainNode ''aa'' None False, plainNode ''bb'' (Some ''aa'') False]
   \<and> isAncestor [plainNode ''bb'' (Some ''aa'') False, plainNode ''aa'' None False]
       (plainNode ''aa'' None False) (plainNode ''bb'' (Some ''aa'') False)
     = isAncestor [plainNode ''aa'' None False, plainNode ''bb'' (Some ''aa'') False]
       (plainNode ''aa'' None False) (plainNode ''bb'' (Some ''aa'') False)"
proof -
  have h1: "acyclic (parentEdges [plainNode ''aa'' None False, plainNode ''bb'' (Some ''aa'') False])"
    by code_simp
  have h2: "plainNode ''bb'' (Some ''aa'') False
       \<in> set [plainNode ''aa'' None False, plainNode ''bb'' (Some ''aa'') False]"
    by simp
  have h3: "distinct (map id_r [plainNode ''aa'' None False, plainNode ''bb'' (Some ''aa'') False])"
    by simp
  have h4: "mset [plainNode ''bb'' (Some ''aa'') False, plainNode ''aa'' None False]
       = mset [plainNode ''aa'' None False, plainNode ''bb'' (Some ''aa'') False]"
    by (simp add: add_mset_commute)
  show ?thesis
    using h1 h2 h3 h4
      isAncestor_irreflexive_order_independent
        [of "[plainNode ''aa'' None False, plainNode ''bb'' (Some ''aa'') False]"
            "[plainNode ''bb'' (Some ''aa'') False, plainNode ''aa'' None False]"]
    by blast
qed

text \<open>
  Claim C8 as stated fails on graphs that the parser builds from a malformed history. A
  revision that names itself as its parent is its own ancestor. With one id on two
  records, the lookup by id takes the first of them, so the answer for \<open>bb\<close> and \<open>cc\<close>
  changes when the two records \<open>aa\<close> change places.
\<close>

theorem isAncestor_irreflexive_counterexample:
  "parseHistory ''Rev: aa\<newline>Parent: aa'' [] [] = [plainNode ''aa'' (Some ''aa'') False]
   \<and> isAncestor [plainNode ''aa'' (Some ''aa'') False]
       (plainNode ''aa'' (Some ''aa'') False) (plainNode ''aa'' (Some ''aa'') False) = Some True
   \<and> parseHistory ''Rev: cc\<newline>Parent: aa\<newline>Rev: aa\<newline>Parent: bb\<newline>Rev: aa\<newline>Rev: bb'' [] [] =
       [plainNode ''bb'' None False, plainNode ''aa'' None False,
        plainNode ''aa'' (Some ''bb'') False, plainNode ''cc'' (Some ''aa'') False]
   \<and> isAncestor
       [plainNode ''bb'' None False, plainNode ''aa'' None False,
        plainNode ''aa'' (Some ''bb'') False, plainNode ''cc'' (Some ''aa'') False]
       (plainNode ''bb'' None False) (plainNode ''cc'' (Some ''aa'') False) = Some False
   \<and> isAncestor
       [plainNode ''bb'' None False, plainNode ''aa'' (Some ''bb'') False,
        plainNode ''aa'' None False, plainNode ''cc'' (Some ''aa'') False]
       (plainNode ''bb'' None False) (plainNode ''cc'' (Some ''aa'') False) = Some True"
proof (intro conjI)
  show "parseHistory ''Rev: aa\<newline>Parent: aa'' [] [] = [plainNode ''aa'' (Some ''aa'') False]"
    by code_simp
  show "parseHistory ''Rev: cc\<newline>Parent: aa\<newline>Rev: aa\<newline>Parent: bb\<newline>Rev: aa\<newline>Rev: bb'' [] [] =
       [plainNode ''bb'' None False, plainNode ''aa'' None False,
        plainNode ''aa'' (Some ''bb'') False, plainNode ''cc'' (Some ''aa'') False]"
    by code_simp
qed (simp_all add: isAncestor_def isAncestor_loop_Some findById_def)

section \<open>The applied test\<close>

text \<open>
  Claim C4, as the code has it. A current node is applied, on every graph. On a graph whose
  edges form no cycle, \<open>isApplied(n)\<close> returns, and it is true exactly when \<open>n\<close> is current
  or some current node \<open>c\<close> of the graph has \<open>isAncestor(n, c)\<close> true.
\<close>

theorem isApplied_iff_current_or_ancestor:
  "(isCurrent n \<longrightarrow> isApplied revs n = Some True)
   \<and> (acyclic (parentEdges revs) \<longrightarrow>
        isApplied revs n =
          Some (isCurrent n \<or> (\<exists>c\<in>set revs. isCurrent c \<and> isAncestor revs n c = Some True)))"
proof (intro conjI impI)
  assume "isCurrent n"
  then show "isApplied revs n = Some True" by (simp add: isApplied_def)
next
  assume ac: "acyclic (parentEdges revs)"
  have "isAncestor revs n c \<noteq> None" for c
    using isAncestor_loop_terminates [OF ac, of n "Some c"] by (simp add: isAncestor_def)
  then have "someCurrentDescendant revs n revs =
           Some (\<exists>c\<in>set revs. isCurrent c \<and> isAncestor revs n c = Some True)"
    by (intro someCurrentDescendant_total)
  then show "isApplied revs n =
          Some (isCurrent n \<or> (\<exists>c\<in>set revs. isCurrent c \<and> isAncestor revs n c = Some True))"
    by (simp add: isApplied_def)
qed

theorem isApplied_iff_current_or_ancestor_witness:
  "acyclic (parentEdges [plainNode ''aa'' None False, plainNode ''bb'' (Some ''aa'') True])
   \<and> isApplied [plainNode ''aa'' None False, plainNode ''bb'' (Some ''aa'') True]
       (plainNode ''aa'' None False) = Some True
   \<and> isCurrent (plainNode ''bb'' (Some ''aa'') True)
   \<and> isApplied [plainNode ''aa'' None False, plainNode ''bb'' (Some ''aa'') True]
       (plainNode ''bb'' (Some ''aa'') True) = Some True"
proof -
  have h: "acyclic (parentEdges [plainNode ''aa'' None False, plainNode ''bb'' (Some ''aa'') True])"
    by code_simp
  have a: "isAncestor [plainNode ''aa'' None False, plainNode ''bb'' (Some ''aa'') True]
      (plainNode ''aa'' None False) (plainNode ''bb'' (Some ''aa'') True) = Some True"
    by (simp add: isAncestor_def isAncestor_loop_Some)
  have "isApplied [plainNode ''aa'' None False, plainNode ''bb'' (Some ''aa'') True]
       (plainNode ''aa'' None False) = Some True"
    using h a isApplied_iff_current_or_ancestor
      [of "plainNode ''aa'' None False"
          "[plainNode ''aa'' None False, plainNode ''bb'' (Some ''aa'') True]"]
    by simp
  moreover have "isApplied [plainNode ''aa'' None False, plainNode ''bb'' (Some ''aa'') True]
       (plainNode ''bb'' (Some ''aa'') True) = Some True"
    using isApplied_iff_current_or_ancestor
      [of "plainNode ''bb'' (Some ''aa'') True"
          "[plainNode ''aa'' None False, plainNode ''bb'' (Some ''aa'') True]"]
    by simp
  ultimately show ?thesis using h by simp
qed

text \<open>
  Claim C4 as stated fails. In the graph below, built from a history with a cycle and the
  current listing \<open>c2\<close>, \<open>dd\<close>, the current node \<open>dd\<close> has \<open>ee\<close> as its parent, so the right
  side of the equivalence holds for \<open>ee\<close>; but \<^verbatim>\<open>some\<close> first meets the current node \<open>c2\<close>,
  whose walk goes round the cycle, and \<open>isApplied(ee)\<close> never returns.
\<close>

theorem isApplied_cycle_counterexample:
  "parseHistory
     ''Rev: dd\<newline>Parent: ee\<newline>Rev: ee\<newline>Rev: c1\<newline>Parent: c2\<newline>Rev: c2\<newline>Parent: c1''
     [''c2'', ''dd''] [] =
     [plainNode ''c2'' (Some ''c1'') True, plainNode ''c1'' (Some ''c2'') False,
      plainNode ''ee'' None False, plainNode ''dd'' (Some ''ee'') True]
   \<and> isAncestor
       [plainNode ''c2'' (Some ''c1'') True, plainNode ''c1'' (Some ''c2'') False,
        plainNode ''ee'' None False, plainNode ''dd'' (Some ''ee'') True]
       (plainNode ''ee'' None False) (plainNode ''dd'' (Some ''ee'') True) = Some True
   \<and> isApplied
       [plainNode ''c2'' (Some ''c1'') True, plainNode ''c1'' (Some ''c2'') False,
        plainNode ''ee'' None False, plainNode ''dd'' (Some ''ee'') True]
       (plainNode ''ee'' None False) = None"
proof (intro conjI)
  show "parseHistory
     ''Rev: dd\<newline>Parent: ee\<newline>Rev: ee\<newline>Rev: c1\<newline>Parent: c2\<newline>Rev: c2\<newline>Parent: c1''
     [''c2'', ''dd''] [] =
     [plainNode ''c2'' (Some ''c1'') True, plainNode ''c1'' (Some ''c2'') False,
      plainNode ''ee'' None False, plainNode ''dd'' (Some ''ee'') True]"
    by code_simp
  show "isAncestor
       [plainNode ''c2'' (Some ''c1'') True, plainNode ''c1'' (Some ''c2'') False,
        plainNode ''ee'' None False, plainNode ''dd'' (Some ''ee'') True]
       (plainNode ''ee'' None False) (plainNode ''dd'' (Some ''ee'') True) = Some True"
    by (simp add: isAncestor_def isAncestor_loop_Some)
  have "isAncestor
       [plainNode ''c2'' (Some ''c1'') True, plainNode ''c1'' (Some ''c2'') False,
        plainNode ''ee'' None False, plainNode ''dd'' (Some ''ee'') True]
       (plainNode ''ee'' None False) (plainNode ''c2'' (Some ''c1'') True) = None"
    unfolding isAncestor_def
    by (rule isAncestor_loop_cycle_set
          [where cs = "[plainNode ''c2'' (Some ''c1'') True, plainNode ''c1'' (Some ''c2'') False]"])
       (simp_all add: findById_def)
  then show "isApplied
       [plainNode ''c2'' (Some ''c1'') True, plainNode ''c1'' (Some ''c2'') False,
        plainNode ''ee'' None False, plainNode ''dd'' (Some ''ee'') True]
       (plainNode ''ee'' None False) = None"
    by (simp add: isApplied_def)
qed

section \<open>Facts about the parser loop\<close>

lemma matchRev_Some:
  "matchRev t = Some (i, sp) \<Longrightarrow> i \<noteq> [] \<and> (\<forall>c\<in>set i. isHex c)"
  by (induction t) (auto split: if_splits dest: set_takeWhileD)

lemma parseLine_header:
  "startsWith (trim l) ''Rev:'' \<Longrightarrow>
     parseLine cs hs st l =
       \<lparr>revisions = pushCurrent cs hs st, currentRevision = startRevision (trim l),
        messageLines = [], inMessage = False\<rparr>"
  by (simp add: parseLine_def)

lemma parseLine_other:
  assumes "\<not> startsWith (trim l) ''Rev:''"
  shows "revisions (parseLine cs hs st l) = revisions st"
    and "p_id (currentRevision (parseLine cs hs st l)) = p_id (currentRevision st)"
    and "p_shortId (currentRevision (parseLine cs hs st l)) = p_shortId (currentRevision st)"
  using assms by (simp_all add: parseLine_def Let_def split: option.splits)

lemma accumulatorOk_startRevision: "accumulatorOk (startRevision t)"
  by (auto simp: accumulatorOk_def startRevision_def emptyPartial_def
      split: option.splits dest: matchRev_Some)

lemma accumulatorOk_parseLine:
  "accumulatorOk (currentRevision st) \<Longrightarrow> accumulatorOk (currentRevision (parseLine cs hs st l))"
proof (cases "startsWith (trim l) ''Rev:''")
  case True
  then show ?thesis by (simp add: parseLine_header accumulatorOk_startRevision)
next
  case False
  assume "accumulatorOk (currentRevision st)"
  with parseLine_other(2,3) [OF False, of cs hs st] show ?thesis
    by (auto simp: accumulatorOk_def split: option.splits)
qed

lemma accumulatorOk_foldl:
  "accumulatorOk (currentRevision st) \<Longrightarrow>
     accumulatorOk (currentRevision (foldl (parseLine cs hs) st ls))"
  by (induction ls arbitrary: st) (simp_all add: accumulatorOk_parseLine)

lemma accumulatorOk_init: "accumulatorOk (currentRevision initState)"
  by (simp add: accumulatorOk_def initState_def emptyPartial_def)

lemma pushCurrent_set:
  "accumulatorOk (currentRevision st) \<Longrightarrow> \<forall>r\<in>set (revisions st). recordOk cs hs r \<Longrightarrow>
     \<forall>r\<in>set (pushCurrent cs hs st). recordOk cs hs r"
  by (auto simp: pushCurrent_def accumulatorOk_def recordOk_def completeRevisionInfo_def
      truthy_def orEmpty_def split: option.splits)

lemma recordOk_parseLine:
  assumes "accumulatorOk (currentRevision st)" "\<forall>r\<in>set (revisions st). recordOk cs hs r"
  shows "\<forall>r\<in>set (revisions (parseLine cs hs st l)). recordOk cs hs r"
proof (cases "startsWith (trim l) ''Rev:''")
  case True
  with pushCurrent_set [OF assms] show ?thesis by (simp add: parseLine_header)
next
  case False
  with assms(2) show ?thesis by (simp add: parseLine_other)
qed

lemma recordOk_foldl:
  "accumulatorOk (currentRevision st) \<Longrightarrow> \<forall>r\<in>set (revisions st). recordOk cs hs r \<Longrightarrow>
     \<forall>r\<in>set (revisions (foldl (parseLine cs hs) st ls)). recordOk cs hs r"
proof (induction ls arbitrary: st)
  case Nil
  then show ?case by simp
next
  case (Cons l ls)
  show ?case
    using Cons.IH [OF accumulatorOk_parseLine [OF Cons.prems(1)]
        recordOk_parseLine [OF Cons.prems]]
    by simp
qed

lemma recordOk_parseLines: "\<forall>r\<in>set (parseLines cs hs ls). recordOk cs hs r"
  unfolding parseLines_def
  by (rule pushCurrent_set [OF accumulatorOk_foldl [OF accumulatorOk_init]
        recordOk_foldl [OF accumulatorOk_init]])
     (simp add: initState_def)

lemma recordOk_parseHistory: "r \<in> set (parseHistory output cs hs) \<Longrightarrow> recordOk cs hs r"
  using recordOk_parseLines [of cs hs "split_nl output"] by (simp add: parseHistory_def)

text \<open>The ids of the records, pushed and pending, follow the header lines.\<close>

lemma pushCurrent_ids:
  "accumulatorOk (currentRevision st) \<Longrightarrow>
     map id_r (pushCurrent cs hs st) = map id_r (revisions st) @ pendingId st"
  by (auto simp: pushCurrent_def accumulatorOk_def pendingId_def completeRevisionInfo_def
      truthy_def orEmpty_def split: option.splits)

lemma ids_parseLine:
  assumes "accumulatorOk (currentRevision st)"
  shows "map id_r (revisions (parseLine cs hs st l)) @ pendingId (parseLine cs hs st l) =
           map id_r (revisions st) @ pendingId st @ (case headerId l of None \<Rightarrow> [] | Some i \<Rightarrow> [i])"
proof (cases "startsWith (trim l) ''Rev:''")
  case True
  then show ?thesis
    by (auto simp: parseLine_header pushCurrent_ids [OF assms] headerId_def pendingId_def
        startRevision_def emptyPartial_def split: option.splits)
next
  case False
  then show ?thesis
    by (simp add: parseLine_other headerId_def pendingId_def)
qed

lemma ids_foldl:
  "accumulatorOk (currentRevision st) \<Longrightarrow>
     map id_r (revisions (foldl (parseLine cs hs) st ls))
       @ pendingId (foldl (parseLine cs hs) st ls) =
     map id_r (revisions st) @ pendingId st @ headerIds ls"
proof (induction ls arbitrary: st)
  case Nil
  then show ?case by (simp add: headerIds_def)
next
  case (Cons l ls)
  show ?case
    using Cons.IH [OF accumulatorOk_parseLine [OF Cons.prems]] ids_parseLine [OF Cons.prems, of cs hs l]
    by (simp add: headerIds_def split: option.splits)
qed

lemma ids_parseLines: "map id_r (parseLines cs hs ls) = headerIds ls"
  unfolding parseLines_def
  using pushCurrent_ids [OF accumulatorOk_foldl [OF accumulatorOk_init], of cs hs cs hs ls]
    ids_foldl [OF accumulatorOk_init, of cs hs ls]
  by (simp add: initState_def pendingId_def emptyPartial_def)

text \<open>A header line closes everything before it.\<close>

lemma pushCurrent_prefix:
  "pushCurrent cs hs (st\<lparr>revisions := rs @ revisions st\<rparr>) = rs @ pushCurrent cs hs st"
  by (simp add: pushCurrent_def)

lemma parseLine_prefix:
  "parseLine cs hs (st\<lparr>revisions := rs @ revisions st\<rparr>) l =
     (parseLine cs hs st l)\<lparr>revisions := rs @ revisions (parseLine cs hs st l)\<rparr>"
proof (cases "startsWith (trim l) ''Rev:''")
  case True
  then show ?thesis by (simp add: parseLine_header pushCurrent_prefix)
next
  case False
  then show ?thesis
    by (cases "matchParent (trim l)"; cases "matchDate (trim l)") (simp_all add: parseLine_def Let_def)
qed

lemma foldl_parseLine_prefix:
  "foldl (parseLine cs hs) (st\<lparr>revisions := rs @ revisions st\<rparr>) ls =
     (foldl (parseLine cs hs) st ls)\<lparr>revisions := rs @ revisions (foldl (parseLine cs hs) st ls)\<rparr>"
  by (induction ls arbitrary: st) (simp_all add: parseLine_prefix)

lemma parseLines_malformed_header:
  assumes "startsWith (trim bad) ''Rev:''" "matchRev (trim bad) = None"
  shows "parseLines cs hs (pre @ bad # post) = parseLines cs hs pre @ parseLines cs hs post"
proof -
  let ?st = "foldl (parseLine cs hs) initState pre"
  have "parseLine cs hs ?st bad = initState\<lparr>revisions := parseLines cs hs pre @ revisions initState\<rparr>"
    using assms by (simp add: parseLine_header startRevision_def initState_def parseLines_def)
  then have "foldl (parseLine cs hs) initState (pre @ bad # post) =
      (foldl (parseLine cs hs) initState post)
        \<lparr>revisions := parseLines cs hs pre @ revisions (foldl (parseLine cs hs) initState post)\<rparr>"
    by (simp add: foldl_parseLine_prefix)
  then show ?thesis by (simp add: parseLines_def pushCurrent_prefix)
qed

lemma parseLines_header:
  assumes "startsWith (trim h) ''Rev:''"
  shows "parseLines cs hs (pre @ h # post) = parseLines cs hs pre @ parseLines cs hs (h # post)"
proof -
  let ?st = "foldl (parseLine cs hs) initState pre"
  have "parseLine cs hs ?st h =
      (parseLine cs hs initState h)\<lparr>revisions := parseLines cs hs pre @ revisions (parseLine cs hs initState h)\<rparr>"
    using assms
    by (simp add: parseLine_header parseLines_def pushCurrent_def initState_def emptyPartial_def truthy_def)
  then have "foldl (parseLine cs hs) initState (pre @ h # post) =
      (foldl (parseLine cs hs) initState (h # post))
        \<lparr>revisions := parseLines cs hs pre @ revisions (foldl (parseLine cs hs) initState (h # post))\<rparr>"
    by (simp add: foldl_parseLine_prefix)
  then show ?thesis by (simp add: parseLines_def pushCurrent_prefix)
qed


lemma parseLines_no_header:
  assumes "\<forall>l\<in>set ls. \<not> startsWith (trim l) ''Rev:''"
  shows "parseLines cs hs ls = []"
proof -
  from assms have "headerIds ls = []"
    by (induction ls) (simp_all add: headerIds_def headerId_def)
  with ids_parseLines [of cs hs ls] show ?thesis by simp
qed

section \<open>The parser's records\<close>

text \<open>
  Claim C9. Every node that \<^verbatim>\<open>parseHistory\<close> returns has as its \<open>shortId\<close> the first 8
  characters of its id, which is the whole id when the id is shorter.
\<close>

theorem shortId_prefix_of_id:
  "r \<in> set (parseHistory output cs hs) \<Longrightarrow> shortId r = take 8 (id_r r)"
  by (drule recordOk_parseHistory) (simp add: recordOk_def)

theorem shortId_prefix_of_id_witness:
  "\<lparr>id_r = ''0123456789ab'', shortId = ''01234567'', message = [], branchLabels = [],
     downRevision = None, isCurrent = False, isHead = False, isMerge = False, author = None,
     date = None\<rparr> \<in> set (parseHistory ''Rev: 0123456789ab'' [] [])
   \<and> shortId \<lparr>id_r = ''0123456789ab'', shortId = ''01234567'', message = [], branchLabels = [],
     downRevision = None, isCurrent = False, isHead = False, isMerge = False, author = None,
     date = None\<rparr> = take 8 (id_r \<lparr>id_r = ''0123456789ab'', shortId = ''01234567'', message = [],
     branchLabels = [], downRevision = None, isCurrent = False, isHead = False, isMerge = False,
     author = None, date = None\<rparr>)"
proof -
  have m: "\<lparr>id_r = ''0123456789ab'', shortId = ''01234567'', message = [], branchLabels = [],
     downRevision = None, isCurrent = False, isHead = False, isMerge = False, author = None,
     date = None\<rparr> \<in> set (parseHistory ''Rev: 0123456789ab'' [] [])"
    by code_simp
  from m shortId_prefix_of_id [OF m] show ?thesis by (rule conjI)
qed

text \<open>
  Claim C5. For every record that the parser finalizes, \<open>isCurrent\<close> is membership of its id
  in the current listing and \<open>isHead\<close> is membership in the head listing. The hints that the
  header line left in the accumulator are not read: finalizing gives the same node
  whatever they are.
\<close>

theorem flags_from_status_sets:
  "(r \<in> set (parseHistory output cs hs) \<longrightarrow>
      isCurrent r = (id_r r \<in> set cs) \<and> isHead r = (id_r r \<in> set hs))
   \<and> isCurrent (completeRevisionInfo partial cs hs)
         = (id_r (completeRevisionInfo partial cs hs) \<in> set cs)
   \<and> isHead (completeRevisionInfo partial cs hs)
         = (id_r (completeRevisionInfo partial cs hs) \<in> set hs)
   \<and> completeRevisionInfo (partial\<lparr>p_isCurrent := c, p_isHead := h\<rparr>) cs hs
         = completeRevisionInfo partial cs hs"
proof (intro conjI impI)
  assume "r \<in> set (parseHistory output cs hs)"
  then have "recordOk cs hs r" by (rule recordOk_parseHistory)
  then show "isCurrent r = (id_r r \<in> set cs)" "isHead r = (id_r r \<in> set hs)"
    by (simp_all add: recordOk_def)
qed (simp_all add: completeRevisionInfo_def)

theorem flags_from_status_sets_witness:
  "\<lparr>id_r = ''a1b2c3d4e5f6'', shortId = ''a1b2c3d4'', message = [], branchLabels = [],
     downRevision = None, isCurrent = True, isHead = False, isMerge = False, author = None,
     date = None\<rparr>
     \<in> set (parseHistory ''Rev: a1b2c3d4e5f6 (head)'' (parseCurrentRevisions ''a1b2c3d4e5f6'') [])
   \<and> ''a1b2c3d4e5f6'' \<in> set (parseCurrentRevisions ''a1b2c3d4e5f6'')
   \<and> ''a1b2c3d4e5f6'' \<notin> set ([] :: string list)"
proof -
  have m: "\<lparr>id_r = ''a1b2c3d4e5f6'', shortId = ''a1b2c3d4'', message = [], branchLabels = [],
     downRevision = None, isCurrent = True, isHead = False, isMerge = False, author = None,
     date = None\<rparr>
     \<in> set (parseHistory ''Rev: a1b2c3d4e5f6 (head)'' (parseCurrentRevisions ''a1b2c3d4e5f6'') [])"
    by code_simp
  from m flags_from_status_sets
    [of "\<lparr>id_r = ''a1b2c3d4e5f6'', shortId = ''a1b2c3d4'', message = [], branchLabels = [],
     downRevision = None, isCurrent = True, isHead = False, isMerge = False, author = None,
     date = None\<rparr>" "''Rev: a1b2c3d4e5f6 (head)''" "parseCurrentRevisions ''a1b2c3d4e5f6''" "[]"]
  show ?thesis by simp
qed

text \<open>
  Claim C7, as the code has it. Every record of a parse has a non-empty id of lowercase hex
  digits. The ids of the records are the ids of the valid header lines of the input, one
  record for each such line (the result is in reverse order); so they are pairwise distinct
  exactly when no id stands on two header lines.
\<close>

theorem record_ids_from_headers:
  "(\<forall>r\<in>set (parseHistory output cs hs). id_r r \<noteq> [] \<and> (\<forall>c\<in>set (id_r r). isHex c))
   \<and> map id_r (parseHistory output cs hs) = rev (headerIds (split_nl output))
   \<and> (distinct (map id_r (parseHistory output cs hs)) \<longleftrightarrow> distinct (headerIds (split_nl output)))"
proof -
  have hex: "\<forall>r\<in>set (parseHistory output cs hs). id_r r \<noteq> [] \<and> (\<forall>c\<in>set (id_r r). isHex c)"
  proof
    fix r assume "r \<in> set (parseHistory output cs hs)"
    then have "recordOk cs hs r" by (rule recordOk_parseHistory)
    then show "id_r r \<noteq> [] \<and> (\<forall>c\<in>set (id_r r). isHex c)" by (simp add: recordOk_def)
  qed
  have ids: "map id_r (parseHistory output cs hs) = rev (headerIds (split_nl output))"
    by (simp add: parseHistory_def rev_map [symmetric] ids_parseLines)
  from hex ids show ?thesis by simp
qed

theorem record_ids_from_headers_witness:
  "plainNode ''aa'' None False \<in> set (parseHistory ''Rev: bb\<newline>Rev: aa'' [] [])
   \<and> id_r (plainNode ''aa'' None False) \<noteq> []
   \<and> map id_r (parseHistory ''Rev: bb\<newline>Rev: aa'' [] []) = [''aa'', ''bb'']
   \<and> distinct (map id_r (parseHistory ''Rev: bb\<newline>Rev: aa'' [] []))"
proof -
  have m: "plainNode ''aa'' None False \<in> set (parseHistory ''Rev: bb\<newline>Rev: aa'' [] [])"
    by code_simp
  have h: "headerIds (split_nl ''Rev: bb\<newline>Rev: aa'') = [''bb'', ''aa'']"
    by code_simp
  from m h record_ids_from_headers [of "''Rev: bb\<newline>Rev: aa''" "[]" "[]"]
  show ?thesis by auto
qed

text \<open>
  Claim C7 as stated fails: the parser pushes one record for every valid header line and
  compares no ids, so a history that names one id on two header lines gives two records
  with that id.
\<close>

theorem record_ids_distinct_counterexample:
  "parseHistory ''Rev: aa\<newline>Rev: aa'' [] [] =
     [plainNode ''aa'' None False, plainNode ''aa'' None False]
   \<and> \<not> distinct (map id_r (parseHistory ''Rev: aa\<newline>Rev: aa'' [] []))"
proof -
  have "parseHistory ''Rev: aa\<newline>Rev: aa'' [] [] =
     [plainNode ''aa'' None False, plainNode ''aa'' None False]"
    by code_simp
  then show ?thesis by simp
qed

text \<open>
  Claim C6. Let a line of the input start with \<^verbatim>\<open>Rev:\<close> after trimming and fail the
  pattern of a header. The parse has no error value, and its result is the records of the
  lines before that line, closed as at the end of input, and the records of the lines
  after it, parsed from a fresh accumulator; the malformed line gives no record. The
  records from the next valid header on are the same as in the input without the
  malformed line.
\<close>

theorem malformed_header_skipped:
  assumes "startsWith (trim bad) ''Rev:''" and "matchRev (trim bad) = None"
    and "split_nl output = pre @ bad # post"
  shows "parseHistory output cs hs = rev (parseLines cs hs post) @ rev (parseLines cs hs pre)
    \<and> (\<forall>mid h rest.
          post = mid @ h # rest \<and> startsWith (trim h) ''Rev:''
            \<and> (\<forall>l\<in>set mid. \<not> startsWith (trim l) ''Rev:'') \<longrightarrow>
          parseLines cs hs post = parseLines cs hs (h # rest)
          \<and> parseLines cs hs (pre @ post)
              = parseLines cs hs (pre @ mid) @ parseLines cs hs (h # rest))"
proof (intro conjI allI impI)
  show "parseHistory output cs hs = rev (parseLines cs hs post) @ rev (parseLines cs hs pre)"
    using assms by (simp add: parseHistory_def parseLines_malformed_header)
next
  fix mid h rest
  assume a: "post = mid @ h # rest \<and> startsWith (trim h) ''Rev:''
            \<and> (\<forall>l\<in>set mid. \<not> startsWith (trim l) ''Rev:'')"
  then have h: "startsWith (trim h) ''Rev:''" and mid: "parseLines cs hs mid = []"
    by (simp_all add: parseLines_no_header)
  from a parseLines_header [OF h, of cs hs mid rest] mid
  show "parseLines cs hs post = parseLines cs hs (h # rest)" by simp
  from a parseLines_header [OF h, of cs hs "pre @ mid" rest]
  show "parseLines cs hs (pre @ post) = parseLines cs hs (pre @ mid) @ parseLines cs hs (h # rest)"
    by simp
qed

theorem malformed_header_skipped_witness:
  "startsWith (trim ''Rev: zz'') ''Rev:'' \<and> matchRev (trim ''Rev: zz'') = None
   \<and> split_nl ''Rev: aa\<newline>Parent: bb\<newline>Rev: zz\<newline>Parent: dd\<newline>Rev: cc\<newline>Parent: aa''
       = [''Rev: aa'', ''Parent: bb''] @ ''Rev: zz'' # [''Parent: dd'', ''Rev: cc'', ''Parent: aa'']
   \<and> parseHistory ''Rev: aa\<newline>Parent: bb\<newline>Rev: zz\<newline>Parent: dd\<newline>Rev: cc\<newline>Parent: aa'' [] []
       = [plainNode ''cc'' (Some ''aa'') False, plainNode ''aa'' (Some ''bb'') False]
   \<and> parseLines [] [] [''Parent: dd'', ''Rev: cc'', ''Parent: aa'']
       = parseLines [] [] [''Rev: cc'', ''Parent: aa'']"
proof -
  have h1: "startsWith (trim ''Rev: zz'') ''Rev:''" by code_simp
  have h2: "matchRev (trim ''Rev: zz'') = None" by code_simp
  have h3: "split_nl ''Rev: aa\<newline>Parent: bb\<newline>Rev: zz\<newline>Parent: dd\<newline>Rev: cc\<newline>Parent: aa''
       = [''Rev: aa'', ''Parent: bb''] @ ''Rev: zz'' # [''Parent: dd'', ''Rev: cc'', ''Parent: aa'']"
    by code_simp
  have h4: "startsWith (trim ''Rev: cc'') ''Rev:''" by code_simp
  have h5: "\<forall>l\<in>set [''Parent: dd'']. \<not> startsWith (trim l) ''Rev:''" by code_simp
  have e1: "rev (parseLines [] [] [''Parent: dd'', ''Rev: cc'', ''Parent: aa''])
      @ rev (parseLines [] [] [''Rev: aa'', ''Parent: bb''])
      = [plainNode ''cc'' (Some ''aa'') False, plainNode ''aa'' (Some ''bb'') False]"
    by code_simp
  note t = malformed_header_skipped [OF h1 h2 h3, of "[]" "[]"]
  from t have "parseHistory ''Rev: aa\<newline>Parent: bb\<newline>Rev: zz\<newline>Parent: dd\<newline>Rev: cc\<newline>Parent: aa'' [] []
       = [plainNode ''cc'' (Some ''aa'') False, plainNode ''aa'' (Some ''bb'') False]"
    using e1 by simp
  moreover from t h4 h5 have "parseLines [] [] [''Parent: dd'', ''Rev: cc'', ''Parent: aa'']
       = parseLines [] [] [''Rev: cc'', ''Parent: aa'']"
    by (elim conjE allE [of _ "[''Parent: dd'']"] allE [of _ "''Rev: cc''"] allE [of _ "[''Parent: aa'']"]) simp
  ultimately show ?thesis using h1 h2 h3 by simp
qed

section \<open>Tokens of the status listings\<close>

lemma matchHex_iff:
  "matchHex line = Some t \<longleftrightarrow>
     (\<exists>pre post. line = pre @ t @ post \<and> t \<noteq> [] \<and> (\<forall>c\<in>set pre. \<not> isHex c)
        \<and> (\<forall>c\<in>set t. isHex c) \<and> (post = [] \<or> \<not> isHex (hd post)))"
proof
  assume m: "matchHex line = Some t"
  let ?d = "dropWhile (\<lambda>x. \<not> isHex x) line"
  from m have d: "?d \<noteq> []" and t: "t = takeWhile isHex ?d"
    by (auto simp: matchHex_def split: if_splits)
  from d have "isHex (hd ?d)" using hd_dropWhile [of "\<lambda>x. \<not> isHex x" line] by simp
  with d have "t \<noteq> []" unfolding t by (cases ?d) auto
  moreover have "line = takeWhile (\<lambda>x. \<not> isHex x) line @ t @ dropWhile isHex ?d"
    unfolding t by simp
  moreover have "\<forall>c\<in>set (takeWhile (\<lambda>x. \<not> isHex x) line). \<not> isHex c"
    by (auto dest: set_takeWhileD)
  moreover have "\<forall>c\<in>set t. isHex c" unfolding t by (auto dest: set_takeWhileD)
  moreover have "dropWhile isHex ?d = [] \<or> \<not> isHex (hd (dropWhile isHex ?d))"
    using hd_dropWhile [of isHex ?d] by blast
  ultimately show "\<exists>pre post. line = pre @ t @ post \<and> t \<noteq> [] \<and> (\<forall>c\<in>set pre. \<not> isHex c)
        \<and> (\<forall>c\<in>set t. isHex c) \<and> (post = [] \<or> \<not> isHex (hd post))"
    by blast
next
  assume "\<exists>pre post. line = pre @ t @ post \<and> t \<noteq> [] \<and> (\<forall>c\<in>set pre. \<not> isHex c)
        \<and> (\<forall>c\<in>set t. isHex c) \<and> (post = [] \<or> \<not> isHex (hd post))"
  then obtain pre post where line: "line = pre @ t @ post" and t: "t \<noteq> []"
    and pre: "\<forall>c\<in>set pre. \<not> isHex c" and hex: "\<forall>c\<in>set t. isHex c"
    and post: "post = [] \<or> \<not> isHex (hd post)" by blast
  from pre have "dropWhile (\<lambda>x. \<not> isHex x) line = dropWhile (\<lambda>x. \<not> isHex x) (t @ post)"
    unfolding line by (simp add: dropWhile_append2)
  also from t hex have "\<dots> = t @ post" by (cases t) auto
  finally have d: "dropWhile (\<lambda>x. \<not> isHex x) line = t @ post" .
  from post have "takeWhile isHex post = []" by (cases post) auto
  with hex have "takeWhile isHex (t @ post) = t" by (simp add: takeWhile_append2)
  with d t show "matchHex line = Some t" by (simp add: matchHex_def)
qed

lemma matchHex_None_iff: "matchHex line = None \<longleftrightarrow> \<not> (\<exists>c\<in>set line. isHex c)"
  by (auto simp: matchHex_def dropWhile_eq_Nil_conv)

lemma length_map_filter_matchHex:
  "length (List.map_filter matchHex ls) = length (filter (\<lambda>line. \<exists>c\<in>set line. isHex c) ls)"
proof (induction ls)
  case Nil
  show ?case by simp
next
  case (Cons l ls)
  then show ?case
    using matchHex_None_iff [of l] by (cases "matchHex l") simp_all
qed

lemma set_map_filter_matchHex:
  "set (List.map_filter matchHex ls) = {t. \<exists>line\<in>set ls. matchHex line = Some t}"
  by (induction ls) (auto split: option.splits)

lemma list_all2_map_filter_matchHex:
  "list_all2 (\<lambda>line t. matchHex line = Some t)
     (filter (\<lambda>line. \<exists>c\<in>set line. isHex c) ls) (List.map_filter matchHex ls)"
proof (induction ls)
  case Nil
  show ?case by simp
next
  case (Cons l ls)
  show ?case
  proof (cases "matchHex l")
    case None
    with matchHex_None_iff [of l] Cons show ?thesis by simp
  next
    case (Some t)
    with matchHex_None_iff [of l] have "\<exists>c\<in>set l. isHex c" by simp
    with Some Cons show ?thesis by simp
  qed
qed

text \<open>The decomposition of a line fixes its token, so it fixes the listing entry by entry.\<close>

lemma first_token_unique:
  assumes "line = pre @ t @ post \<and> t \<noteq> [] \<and> (\<forall>c\<in>set pre. \<not> isHex c)
        \<and> (\<forall>c\<in>set t. isHex c) \<and> (post = [] \<or> \<not> isHex (hd post))"
    and "line = pre' @ t' @ post' \<and> t' \<noteq> [] \<and> (\<forall>c\<in>set pre'. \<not> isHex c)
        \<and> (\<forall>c\<in>set t'. isHex c) \<and> (post' = [] \<or> \<not> isHex (hd post'))"
  shows "t = t'"
proof -
  from assms(1) have "matchHex line = Some t" by (subst matchHex_iff) blast
  moreover from assms(2) have "matchHex line = Some t'" by (subst matchHex_iff) blast
  ultimately show ?thesis by simp
qed

text \<open>
  Claim C2, as the code has it. The pattern has no global flag, so each line gives at most
  one token: its leftmost longest run of hex digits. The listing is an array that has, in
  the order of the lines, one entry for every line with a hex digit, the first token of
  that line; a token that stands on two lines is listed twice. \<^verbatim>\<open>parseHeadRevisions\<close> is the
  same function.
\<close>

theorem status_first_token_per_line:
  "list_all2
     (\<lambda>line t. \<exists>pre post.
        line = pre @ t @ post \<and> t \<noteq> [] \<and> (\<forall>c\<in>set pre. \<not> isHex c)
        \<and> (\<forall>c\<in>set t. isHex c) \<and> (post = [] \<or> \<not> isHex (hd post)))
     (filter (\<lambda>line. \<exists>c\<in>set line. isHex c) (split_nl output))
     (parseCurrentRevisions output)
   \<and> (t \<in> set (parseCurrentRevisions output) \<longleftrightarrow>
      (\<exists>line\<in>set (split_nl output). \<exists>pre post.
          line = pre @ t @ post \<and> t \<noteq> [] \<and> (\<forall>c\<in>set pre. \<not> isHex c)
          \<and> (\<forall>c\<in>set t. isHex c) \<and> (post = [] \<or> \<not> isHex (hd post))))
   \<and> length (parseCurrentRevisions output)
       = length (filter (\<lambda>line. \<exists>c\<in>set line. isHex c) (split_nl output))
   \<and> parseHeadRevisions output = parseCurrentRevisions output"
proof (intro conjI)
  have "list_all2 (\<lambda>line t. matchHex line = Some t)
     (filter (\<lambda>line. \<exists>c\<in>set line. isHex c) (split_nl output)) (parseCurrentRevisions output)"
    unfolding parseCurrentRevisions_def by (rule list_all2_map_filter_matchHex)
  then show "list_all2
     (\<lambda>line t. \<exists>pre post.
        line = pre @ t @ post \<and> t \<noteq> [] \<and> (\<forall>c\<in>set pre. \<not> isHex c)
        \<and> (\<forall>c\<in>set t. isHex c) \<and> (post = [] \<or> \<not> isHex (hd post)))
     (filter (\<lambda>line. \<exists>c\<in>set line. isHex c) (split_nl output))
     (parseCurrentRevisions output)"
    by (simp only: matchHex_iff)
  have "t \<in> set (parseCurrentRevisions output) \<longleftrightarrow>
      (\<exists>line\<in>set (split_nl output). matchHex line = Some t)"
    by (simp add: parseCurrentRevisions_def set_map_filter_matchHex)
  then show "t \<in> set (parseCurrentRevisions output) \<longleftrightarrow>
      (\<exists>line\<in>set (split_nl output). \<exists>pre post.
          line = pre @ t @ post \<and> t \<noteq> [] \<and> (\<forall>c\<in>set pre. \<not> isHex c)
          \<and> (\<forall>c\<in>set t. isHex c) \<and> (post = [] \<or> \<not> isHex (hd post)))"
    by (simp only: matchHex_iff)
  show "length (parseCurrentRevisions output)
       = length (filter (\<lambda>line. \<exists>c\<in>set line. isHex c) (split_nl output))"
    by (simp only: parseCurrentRevisions_def length_map_filter_matchHex)
  show "parseHeadRevisions output = parseCurrentRevisions output"
    by (simp only: parseHeadRevisions_def parseCurrentRevisions_def)
qed

theorem status_first_token_per_line_witness:
  "filter (\<lambda>line. \<exists>c\<in>set line. isHex c)
       (split_nl ''bb (head)\<newline>INFO\<newline>aa cc\<newline>bb'') = [''bb (head)'', ''aa cc'', ''bb'']
   \<and> parseCurrentRevisions ''bb (head)\<newline>INFO\<newline>aa cc\<newline>bb'' = [''bb'', ''aa'', ''bb'']
   \<and> list_all2
     (\<lambda>line t. \<exists>pre post.
        line = pre @ t @ post \<and> t \<noteq> [] \<and> (\<forall>c\<in>set pre. \<not> isHex c)
        \<and> (\<forall>c\<in>set t. isHex c) \<and> (post = [] \<or> \<not> isHex (hd post)))
     [''bb (head)'', ''aa cc'', ''bb''] [''bb'', ''aa'', ''bb'']
   \<and> parseHeadRevisions ''bb (head)\<newline>INFO\<newline>aa cc\<newline>bb'' = [''bb'', ''aa'', ''bb'']"
proof -
  have f: "filter (\<lambda>line. \<exists>c\<in>set line. isHex c)
       (split_nl ''bb (head)\<newline>INFO\<newline>aa cc\<newline>bb'') = [''bb (head)'', ''aa cc'', ''bb'']"
    by code_simp
  have e: "parseCurrentRevisions ''bb (head)\<newline>INFO\<newline>aa cc\<newline>bb'' = [''bb'', ''aa'', ''bb'']"
    by code_simp
  note t = status_first_token_per_line [of "''bb (head)\<newline>INFO\<newline>aa cc\<newline>bb''" "''bb''"]
  from t have "list_all2
     (\<lambda>line t. \<exists>pre post.
        line = pre @ t @ post \<and> t \<noteq> [] \<and> (\<forall>c\<in>set pre. \<not> isHex c)
        \<and> (\<forall>c\<in>set t. isHex c) \<and> (post = [] \<or> \<not> isHex (hd post)))
     [''bb (head)'', ''aa cc'', ''bb''] [''bb'', ''aa'', ''bb'']"
    unfolding f e by (elim conjE)
  moreover from t have "parseHeadRevisions ''bb (head)\<newline>INFO\<newline>aa cc\<newline>bb'' = [''bb'', ''aa'', ''bb'']"
    unfolding e by (elim conjE)
  ultimately show ?thesis using f e by (intro conjI)
qed

text \<open>
  Claim C2 as stated fails: a second token on a line is not collected, and a token that
  stands on two lines is listed twice.
\<close>

theorem status_every_token_counterexample:
  "''f6e5d4'' \<notin> set (parseCurrentRevisions ''a1b2c3 f6e5d4'')
   \<and> parseCurrentRevisions ''a1b2c3\<newline>a1b2c3'' = [''a1b2c3'', ''a1b2c3'']
   \<and> ''f6e5d4'' \<notin> set (parseHeadRevisions ''a1b2c3 f6e5d4'')
   \<and> parseHeadRevisions ''a1b2c3\<newline>a1b2c3'' = [''a1b2c3'', ''a1b2c3'']"
  by code_simp

section \<open>Facts about the two patterns of the planner\<close>

lemma getSubstitution_plain:
  "CHR ''$'' \<notin> set t \<Longrightarrow> getSubstitution t m b a = t"
  by (induction t m b a rule: getSubstitution.induct) auto

lemma prefix_short: "length p \<le> length u \<Longrightarrow> prefix p (u @ y) \<longleftrightarrow> prefix p u"
  by (auto simp: prefix_append)

lemma searchRevisesFrom_dest:
  "searchRevisesFrom f t = Some (a, m, b) \<Longrightarrow>
     t = a @ m @ b \<and> (b = [] \<or> isLineTerminator (hd b)) \<and> (\<exists>z. m = ''Revises:'' @ z)"
proof (induction t arbitrary: f a)
  case Nil
  then show ?case by simp
next
  case (Cons c cs)
  show ?case
  proof (cases "f \<and> prefix ''Revises:'' (c # cs)")
    case True
    then obtain z where z: "c # cs = ''Revises:'' @ z" by (auto simp: prefix_def)
    have split: "z = takeWhile isWhiteSpace z
        @ takeWhile (\<lambda>x. \<not> isLineTerminator x) (dropWhile isWhiteSpace z)
        @ dropWhile (\<lambda>x. \<not> isLineTerminator x) (dropWhile isWhiteSpace z)"
      by simp
    have "drop 8 (c # cs) = z" unfolding z by simp
    with Cons.prems True have a: "a = []"
      and m: "m = ''Revises:'' @ takeWhile isWhiteSpace z
                @ takeWhile (\<lambda>x. \<not> isLineTerminator x) (dropWhile isWhiteSpace z)"
      and b: "b = dropWhile (\<lambda>x. \<not> isLineTerminator x) (dropWhile isWhiteSpace z)"
      by simp_all
    have "b = [] \<or> isLineTerminator (hd b)"
      unfolding b using hd_dropWhile [of "\<lambda>x. \<not> isLineTerminator x" "dropWhile isWhiteSpace z"]
      by blast
    moreover have "c # cs = a @ m @ b" unfolding a m b z using split by simp
    ultimately show ?thesis using m by blast
  next
    case False
    with Cons.prems obtain a' where a': "a = c # a'"
      and rec: "searchRevisesFrom (isLineTerminator c) cs = Some (a', m, b)"
      by (auto split: if_splits)
    from Cons.IH [OF rec] show ?thesis by (simp add: a')
  qed
qed

lemma searchRevisesFrom_at:
  "searchRevisesFrom True (''Revises:'' @ y) =
     Some ([], ''Revises:'' @ takeWhile isWhiteSpace y
                 @ takeWhile (\<lambda>x. \<not> isLineTerminator x) (dropWhile isWhiteSpace y),
           dropWhile (\<lambda>x. \<not> isLineTerminator x) (dropWhile isWhiteSpace y))"
  by simp

lemma searchRevisesFrom_move:
  "searchRevisesFrom f t = Some (a, m, b) \<Longrightarrow>
     searchRevisesFrom f (a @ ''Revises:'' @ y) =
       Some (a, ''Revises:'' @ takeWhile isWhiteSpace y
                  @ takeWhile (\<lambda>x. \<not> isLineTerminator x) (dropWhile isWhiteSpace y),
             dropWhile (\<lambda>x. \<not> isLineTerminator x) (dropWhile isWhiteSpace y))"
proof (induction t arbitrary: f a)
  case Nil
  then show ?case by simp
next
  case (Cons c cs)
  show ?case
  proof (cases "f \<and> prefix ''Revises:'' (c # cs)")
    case True
    with Cons.prems have "a = []" by simp
    with True searchRevisesFrom_at [of y] show ?thesis by simp
  next
    case False
    with Cons.prems obtain a' where a': "a = c # a'"
      and rec: "searchRevisesFrom (isLineTerminator c) cs = Some (a', m, b)"
      by (auto split: if_splits)
    from searchRevisesFrom_dest [OF rec] obtain z where cs: "cs = a' @ (''Revises:'' @ z) @ b"
      by auto
    have "prefix ''Revises:'' ((c # a' @ ''Revises:'') @ (z @ b))
            \<longleftrightarrow> prefix ''Revises:'' (c # a' @ ''Revises:'')"
      by (rule prefix_short) simp
    moreover have "prefix ''Revises:'' ((c # a' @ ''Revises:'') @ y)
            \<longleftrightarrow> prefix ''Revises:'' (c # a' @ ''Revises:'')"
      by (rule prefix_short) simp
    ultimately have "prefix ''Revises:'' (c # a' @ ''Revises:'' @ y)
            \<longleftrightarrow> prefix ''Revises:'' (c # cs)"
      unfolding cs by simp
    with False have "\<not> (f \<and> prefix ''Revises:'' (c # a' @ ''Revises:'' @ y))" by simp
    then have "searchRevisesFrom f (c # a' @ ''Revises:'' @ y) =
        map_option (\<lambda>(b, m, a). (c # b, m, a))
          (searchRevisesFrom (isLineTerminator c) (a' @ ''Revises:'' @ y))"
      by (simp only: searchRevisesFrom.simps if_False)
    with Cons.IH [OF rec] show ?thesis by (simp add: a')
  qed
qed

lemma stopChar_R_d: "stopChar CHR ''R''" "stopChar CHR ''d''"
  by (simp_all add: stopChar_def isWhiteSpace_def isQuote_def)

lemma dropWhile_ws_stop:
  "\<not> isWhiteSpace h \<Longrightarrow>
     dropWhile isWhiteSpace (v @ h # y) =
       (if dropWhile isWhiteSpace v = [] then h # y else dropWhile isWhiteSpace v @ h # y)"
  by (induction v) auto

lemma prefix_lit_stop:
  assumes "h \<notin> set ''own_revision''" "v \<noteq> [] \<or> h \<noteq> CHR ''d''"
  shows "prefix ''down_revision'' (v @ h # y) \<longleftrightarrow> prefix ''down_revision'' v"
proof
  assume "prefix ''down_revision'' (v @ h # y)"
  then consider "prefix ''down_revision'' v"
    | us where "''down_revision'' = v @ us" "prefix us (h # y)"
    by (auto simp: prefix_append)
  then show "prefix ''down_revision'' v"
  proof cases
    case 1
    then show ?thesis .
  next
    case 2
    show ?thesis
    proof (cases us)
      case Nil
      with 2 show ?thesis by simp
    next
      case (Cons u us')
      with 2 have eq: "''down_revision'' = v @ h # us'" by simp
      show ?thesis
      proof (cases v)
        case Nil
        with eq assms(2) show ?thesis by simp
      next
        case (Cons v0 v')
        with eq have "''own_revision'' = v' @ h # us'" by simp
        then have "h \<in> set ''own_revision''" by (metis in_set_conv_decomp)
        with assms(1) show ?thesis by simp
      qed
    qed
  qed
next
  assume "prefix ''down_revision'' v"
  then show "prefix ''down_revision'' (v @ h # y)" by (simp add: prefix_append)
qed

lemma assignHead_stop:
  assumes "stopChar h" "v \<noteq> [] \<or> h \<noteq> CHR ''d''"
  shows "assignHead (v @ h # y) = map_option (\<lambda>r. r @ h # y) (assignHead v)"
proof (cases "prefix ''down_revision'' v")
  case False
  with prefix_lit_stop [of h v y] assms show ?thesis
    by (simp add: assignHead_def stopChar_def)
next
  case True
  then obtain v' where v: "v = ''down_revision'' @ v'" by (auto simp: prefix_def)
  from assms(1) have h: "\<not> isWhiteSpace h" "h \<noteq> CHR ''=''" "\<not> isQuote h"
    by (simp_all add: stopChar_def)
  have p: "prefix ''down_revision'' (v @ h # y)" using True by (simp add: prefix_append)
  have d: "drop 13 (v @ h # y) = v' @ h # y" "drop 13 v = v'" unfolding v by simp_all
  show ?thesis
  proof (cases "dropWhile isWhiteSpace v'")
    case Nil
    with h p d True show ?thesis
      by (simp add: assignHead_def dropWhile_ws_stop del: dropWhile_eq_Nil_conv)
  next
    case (Cons e r)
    show ?thesis
    proof (cases "e = CHR ''=''")
      case False
      with Cons h p d True show ?thesis
        by (simp add: assignHead_def dropWhile_ws_stop del: dropWhile_eq_Nil_conv)
    next
      case e: True
      show ?thesis
      proof (cases "dropWhile isWhiteSpace r")
        case Nil
        with e Cons h p d True show ?thesis
          by (simp add: assignHead_def dropWhile_ws_stop del: dropWhile_eq_Nil_conv)
      next
        case q: (Cons q w)
        with e Cons h p d True show ?thesis
          by (simp add: assignHead_def dropWhile_ws_stop del: dropWhile_eq_Nil_conv)
      qed
    qed
  qed
qed

lemma assignHead_hd: "s = [] \<or> hd s \<noteq> CHR ''d'' \<Longrightarrow> assignHead s = None"
  by (cases s) (auto simp: assignHead_def)

lemma assignHead_suffix: "assignHead s = Some v \<Longrightarrow> \<exists>h. s = h @ v \<and> h \<noteq> [] \<and> hd s = CHR ''d''"
proof -
  assume a: "assignHead s = Some v"
  then have p: "prefix ''down_revision'' s" by (auto simp: assignHead_def split: if_splits)
  then obtain s' where s: "s = ''down_revision'' @ s'" by (auto simp: prefix_def)
  have d: "drop 13 s = s'" unfolding s by simp
  from a p d obtain r where e: "dropWhile isWhiteSpace s' = CHR ''='' # r"
    by (auto simp: assignHead_def split: list.splits if_splits)
  with a p d obtain q where q: "dropWhile isWhiteSpace r = q # v"
    by (auto simp: assignHead_def split: list.splits if_splits)
  have "s' = takeWhile isWhiteSpace s' @ CHR ''='' # r"
    using takeWhile_dropWhile_id [of isWhiteSpace s'] e by simp
  moreover have "r = takeWhile isWhiteSpace r @ q # v"
    using takeWhile_dropWhile_id [of isWhiteSpace r] q by simp
  ultimately have "s = (''down_revision'' @ takeWhile isWhiteSpace s' @ CHR ''='' #
      takeWhile isWhiteSpace r @ [q]) @ v"
    unfolding s by simp
  moreover have "hd s = CHR ''d''" unfolding s by simp
  ultimately show ?thesis by blast
qed

lemma matchDownRevision_Some:
  assumes "matchDownRevision s = Some (m, a)"
  shows "s = m @ a \<and> m \<noteq> [] \<and> hd m = CHR ''d'' \<and> (\<exists>q\<in>set m. isQuote q)"
proof -
  from assms obtain v where v: "assignHead s = Some v"
    by (auto simp: matchDownRevision_def split: option.splits)
  with assms obtain q where q: "dropWhile (\<lambda>x. \<not> isQuote x) v = q # a"
    and m: "m = take (length s - length a) s"
    by (auto simp: matchDownRevision_def split: list.splits)
  from assignHead_suffix [OF v] obtain h where h: "s = h @ v" "h \<noteq> []" "hd s = CHR ''d''" by blast
  have vq: "v = takeWhile (\<lambda>x. \<not> isQuote x) v @ q # a"
    using takeWhile_dropWhile_id [of "\<lambda>x. \<not> isQuote x" v] q by simp
  have isq: "isQuote q" using hd_dropWhile [of "\<lambda>x. \<not> isQuote x" v] q by simp
  let ?m = "h @ takeWhile (\<lambda>x. \<not> isQuote x) v @ [q]"
  have s: "s = ?m @ a" using h(1) vq by simp
  have "m = ?m" unfolding m by (subst s, subst s) simp
  with s h isq show ?thesis by (cases h) auto
qed

lemma matchDownRevision_stop_None:
  assumes "stopChar h" "v \<noteq> [] \<or> h \<noteq> CHR ''d''" "assignHead v = None"
  shows "matchDownRevision (v @ h # y) = None"
  using assms by (simp add: matchDownRevision_def assignHead_stop)

lemma matchDownRevision_stop_quote:
  assumes "stopChar h" "v \<noteq> [] \<or> h \<noteq> CHR ''d''" "\<exists>q\<in>set y. isQuote q"
    and "matchDownRevision (v @ h # y) = None"
  shows "assignHead v = None"
proof (rule ccontr)
  assume "assignHead v \<noteq> None"
  then obtain r where r: "assignHead v = Some r" by auto
  from assms(3) have "dropWhile (\<lambda>x. \<not> isQuote x) (r @ h # y) \<noteq> []" by auto
  with r assms(1,2,4) show False
    by (auto simp: matchDownRevision_def assignHead_stop split: list.splits)
qed


lemma searchDownRevision_dest:
  "searchDownRevision t = Some (p, m, a) \<Longrightarrow>
     t = p @ m @ a \<and> matchDownRevision (m @ a) = Some (m, a)
     \<and> (\<forall>v. v \<noteq> [] \<and> suffix v p \<longrightarrow> matchDownRevision (v @ m @ a) = None)"
proof (induction t arbitrary: p)
  case Nil
  then show ?case by simp
next
  case (Cons c cs)
  show ?case
  proof (cases "matchDownRevision (c # cs)")
    case (Some ma)
    with Cons.prems have p: "p = []" and ma: "ma = (m, a)" by (auto split: prod.splits)
    from Some ma matchDownRevision_Some [of "c # cs" m a] have "c # cs = m @ a" by simp
    with Some ma p show ?thesis by simp
  next
    case None
    with Cons.prems obtain p' where p': "p = c # p'"
      and rec: "searchDownRevision cs = Some (p', m, a)"
      by auto
    from Cons.IH [OF rec] have cs: "cs = p' @ m @ a"
      and ma: "matchDownRevision (m @ a) = Some (m, a)"
      and no: "\<forall>v. v \<noteq> [] \<and> suffix v p' \<longrightarrow> matchDownRevision (v @ m @ a) = None"
      by simp_all
    have "matchDownRevision (v @ m @ a) = None" if "v \<noteq> []" "suffix v p" for v
    proof -
      from that(2) p' consider "v = c # p'" | "suffix v p'" by (auto simp: suffix_Cons)
      then show ?thesis
      proof cases
        case 1
        with None cs show ?thesis by simp
      next
        case 2
        with no that(1) show ?thesis by simp
      qed
    qed
    with cs ma p' show ?thesis by simp
  qed
qed

lemma searchDownRevision_skip:
  "(\<And>v. v \<noteq> [] \<Longrightarrow> suffix v p \<Longrightarrow> matchDownRevision (v @ y) = None) \<Longrightarrow>
     searchDownRevision (p @ y) = map_option (\<lambda>(b, m, a). (p @ b, m, a)) (searchDownRevision y)"
proof (induction p)
  case Nil
  show ?case by (simp add: option.map_ident split_def)
next
  case (Cons c p)
  have "matchDownRevision ((c # p) @ y) = None"
    by (rule Cons.prems) simp_all
  moreover have "searchDownRevision (p @ y) =
      map_option (\<lambda>(b, m, a). (p @ b, m, a)) (searchDownRevision y)"
    by (rule Cons.IH, rule Cons.prems) (simp_all add: suffix_Cons)
  ultimately show ?case
    by (simp add: option.map_comp comp_def split_def)
qed

lemma searchDownRevision_at:
  "matchDownRevision s = Some (m, a) \<Longrightarrow> searchDownRevision s = Some ([], m, a)"
  by (cases s) (simp_all add: matchDownRevision_def assignHead_def)

text \<open>
  Replacing the text of the first \<open>Revises:\<close> match and of the first assignment, both by
  texts of the same kind, leaves the search for the assignment where it was.
\<close>

lemma searchDownRevision_preserved:
  assumes H: "searchDownRevision (a @ m @ b1 @ m2 @ c) = Some (a @ m @ b1, m2, c)"
    and m: "m \<noteq> []" "hd m = CHR ''R''"
    and r: "r \<noteq> []" "hd r = CHR ''R''" "CHR ''d'' \<notin> set r"
    and n2: "matchDownRevision (n2 @ c) = Some (n2, c)"
  shows "searchDownRevision (a @ r @ b1 @ n2 @ c) = Some (a @ r @ b1, n2, c)"
proof -
  from searchDownRevision_dest [OF H]
  have m2: "matchDownRevision (m2 @ c) = Some (m2, c)"
    and no: "\<And>v. v \<noteq> [] \<Longrightarrow> suffix v (a @ m @ b1) \<Longrightarrow> matchDownRevision (v @ m2 @ c) = None"
    by simp_all
  from matchDownRevision_Some [OF m2] obtain m2' where m2': "m2 = CHR ''d'' # m2'"
    and q2: "\<exists>q\<in>set m2. isQuote q" by (cases m2) auto
  from matchDownRevision_Some [OF n2] obtain n2' where n2': "n2 = CHR ''d'' # n2'"
    by (cases n2) auto
  from m obtain mt where mt: "m = CHR ''R'' # mt" by (cases m) auto
  from r obtain rt where rt: "r = CHR ''R'' # rt" by (cases r) auto
  have none: "matchDownRevision (v @ n2 @ c) = None" if v: "v \<noteq> []" "suffix v (a @ r @ b1)" for v
  proof -
    have "suffix v b1 \<or> (\<exists>v'. v = v' @ b1 \<and> v' \<noteq> [] \<and> suffix v' r)
        \<or> (\<exists>v'. v = v' @ r @ b1 \<and> v' \<noteq> [] \<and> suffix v' a)"
    proof -
      from v(2) consider "suffix v (r @ b1)" | w where "v = w @ r @ b1" "suffix w a"
        by (auto simp: suffix_append)
      then show ?thesis
      proof cases
        case 1
        then consider "suffix v b1" | w where "v = w @ b1" "suffix w r"
          by (auto simp: suffix_append)
        then show ?thesis
        proof cases
          case 1
          then show ?thesis by simp
        next
          case 2
          then show ?thesis by (cases "w = []") auto
        qed
      next
        case 2
        show ?thesis
        proof (cases "w = []")
          case True
          with 2 r(1) have "v = r @ b1 \<and> r \<noteq> [] \<and> suffix r r" by simp
          then show ?thesis by blast
        next
          case False
          with 2 show ?thesis by blast
        qed
      qed
    qed
    then consider "suffix v b1"
      | v' where "v = v' @ b1" "v' \<noteq> []" "suffix v' r"
      | v' where "v = v' @ r @ b1" "v' \<noteq> []" "suffix v' a"
      by blast
    then show ?thesis
    proof cases
      case 1
      then have "suffix v (a @ m @ b1)" by (simp add: suffix_append)
      from no [OF v(1) this] have "matchDownRevision (v @ CHR ''d'' # m2' @ c) = None"
        by (simp add: m2')
      from matchDownRevision_stop_quote [OF stopChar_R_d(2) _ _ this] v(1) q2
      have "assignHead v = None" by (auto simp: m2' isQuote_def)
      from matchDownRevision_stop_None [OF stopChar_R_d(2) _ this, of "n2' @ c"] v(1)
      show ?thesis by (simp add: n2')
    next
      case 2
      from 2(2,3) have "hd v' \<in> set r" by (cases v') (auto simp: suffix_def)
      with r(3) 2(1,2) have "hd (v @ n2 @ c) \<noteq> CHR ''d''" by (cases v') auto
      then have "assignHead (v @ n2 @ c) = None" by (intro assignHead_hd) simp
      then show ?thesis by (simp add: matchDownRevision_def)
    next
      case 3
      from 3(3) have "suffix (v' @ m @ b1) (a @ m @ b1)" by (simp add: suffix_append)
      from no [OF _ this] 3(2)
      have "matchDownRevision (v' @ CHR ''R'' # mt @ b1 @ m2 @ c) = None" by (simp add: mt)
      from matchDownRevision_stop_quote [OF stopChar_R_d(1) _ _ this] q2
      have "assignHead v' = None" by auto
      from matchDownRevision_stop_None [OF stopChar_R_d(1) _ this, of "rt @ b1 @ n2 @ c"]
      show ?thesis by (simp add: 3(1) rt)
    qed
  qed
  have "searchDownRevision ((a @ r @ b1) @ n2 @ c) =
      map_option (\<lambda>(b, m, a'). ((a @ r @ b1) @ b, m, a')) (searchDownRevision (n2 @ c))"
    by (rule searchDownRevision_skip) (rule none)
  with searchDownRevision_at [OF n2] show ?thesis by simp
qed

lemma take_length_diff: "take (length (m @ c) - length c) (m @ c) = m"
  by simp

lemma matchDownRevision_literal:
  assumes "\<forall>x\<in>set w1. isWhiteSpace x" "\<forall>x\<in>set w2. isWhiteSpace x"
    and "isQuote q1" "isQuote q2" "\<forall>x\<in>set val. \<not> isQuote x"
  shows "matchDownRevision (''down_revision'' @ w1 @ ''='' @ w2 @ q1 # val @ q2 # c) =
           Some (''down_revision'' @ w1 @ ''='' @ w2 @ q1 # val @ [q2], c)"
proof -
  let ?s = "''down_revision'' @ w1 @ ''='' @ w2 @ q1 # val @ q2 # c"
  have nq: "\<not> isWhiteSpace q1" "\<not> isWhiteSpace CHR ''=''"
    using assms(3) by (auto simp: isWhiteSpace_def isQuote_def)
  have "drop 13 ?s = w1 @ CHR ''='' # w2 @ q1 # val @ q2 # c" by simp
  moreover have "dropWhile isWhiteSpace (w1 @ CHR ''='' # w2 @ q1 # val @ q2 # c)
      = CHR ''='' # w2 @ q1 # val @ q2 # c"
    using assms(1) nq by (simp add: dropWhile_append2)
  moreover have "dropWhile isWhiteSpace (w2 @ q1 # val @ q2 # c) = q1 # val @ q2 # c"
    using assms(2) nq by (simp add: dropWhile_append2)
  ultimately have h: "assignHead ?s = Some (val @ q2 # c)"
    using assms(3) by (simp add: assignHead_def)
  have v: "dropWhile (\<lambda>x. \<not> isQuote x) (val @ q2 # c) = q2 # c"
    using assms(4,5) by (simp add: dropWhile_append2)
  have s: "?s = (''down_revision'' @ w1 @ ''='' @ w2 @ q1 # val @ [q2]) @ c" by simp
  have "take (length ?s - length c) ?s = ''down_revision'' @ w1 @ ''='' @ w2 @ q1 # val @ [q2]"
    unfolding s by (rule take_length_diff)
  with h v show ?thesis by (simp add: matchDownRevision_def del: append.simps)
qed


lemma replaceRevises_plain:
  "searchRevises text = Some (a, m, b) \<Longrightarrow> CHR ''$'' \<notin> set r \<Longrightarrow>
     replaceRevises text r = a @ r @ b"
  by (simp add: replaceRevises_def getSubstitution_plain)

lemma replaceDownRevision_plain:
  "searchDownRevision text = Some (a, m, b) \<Longrightarrow> CHR ''$'' \<notin> set r \<Longrightarrow>
     replaceDownRevision text r = a @ r @ b"
  by (simp add: replaceDownRevision_def getSubstitution_plain)

lemma modifyDependency_root_steps:
  assumes H1: "searchRevises text = Some (a, m, rest)"
    and H2: "searchDownRevision text = Some (a @ m @ b1, m2, c)"
    and s: "CHR ''$'' \<notin> set s" "CHR ''d'' \<notin> set s" "\<forall>x\<in>set s. \<not> isQuote x"
      "\<forall>x\<in>set s. \<not> isLineTerminator x" "s \<noteq> []" "\<not> isWhiteSpace (hd s)"
  shows "replaceDownRevision
           (replaceRevises
              (replaceDownRevision (replaceRevises text (''Revises: '' @ s))
                 (''down_revision = '' @ [CHR 0x22] @ s @ [CHR 0x22]))
              ''Revises:'')
           ''down_revision = None''
         = a @ ''Revises:'' @ b1 @ ''down_revision = None'' @ c"
proof -
  let ?S1 = "''Revises: '' @ s"
  let ?N2 = "''down_revision = '' @ [CHR 0x22] @ s @ [CHR 0x22]"
  from H1 have H1': "searchRevisesFrom True text = Some (a, m, rest)"
    by (simp add: searchRevises_def)
  from searchRevisesFrom_dest [OF H1'] obtain z where tx: "text = a @ m @ rest"
    and rest: "rest = [] \<or> isLineTerminator (hd rest)" and m: "m = ''Revises:'' @ z"
    by blast
  from searchDownRevision_dest [OF H2] have tx2: "text = (a @ m @ b1) @ m2 @ c"
    and m2: "matchDownRevision (m2 @ c) = Some (m2, c)" by simp_all
  from tx tx2 have rest2: "rest = b1 @ m2 @ c" by simp
  from matchDownRevision_Some [OF m2] have m2d: "m2 \<noteq> []" "hd m2 = CHR ''d''" by simp_all
  have b1: "b1 \<noteq> [] \<and> isLineTerminator (hd b1)"
  proof (cases b1)
    case Nil
    with rest rest2 m2d show ?thesis by (cases m2) (auto simp: isLineTerminator_def)
  next
    case (Cons h b1')
    with rest rest2 show ?thesis by simp
  qed
  from H2 have H2': "searchDownRevision (a @ m @ b1 @ m2 @ c) = Some (a @ m @ b1, m2, c)"
    unfolding tx2 by simp
  have mR: "m \<noteq> []" "hd m = CHR ''R''" unfolding m by simp_all
  have S1: "CHR ''$'' \<notin> set ?S1" "?S1 \<noteq> []" "hd ?S1 = CHR ''R''" "CHR ''d'' \<notin> set ?S1"
    using s(1,2) by simp_all
  have N2: "CHR ''$'' \<notin> set ?N2" using s(1) by simp

  have t1: "replaceRevises text ?S1 = a @ ?S1 @ b1 @ m2 @ c"
    using replaceRevises_plain [OF H1 S1(1)] rest2 by simp
  have D1: "searchDownRevision (a @ ?S1 @ b1 @ m2 @ c) = Some (a @ ?S1 @ b1, m2, c)"
    by (rule searchDownRevision_preserved [OF H2' mR S1(2,3,4) m2])
  have t2: "replaceDownRevision (a @ ?S1 @ b1 @ m2 @ c) ?N2 = (a @ ?S1 @ b1) @ ?N2 @ c"
    by (rule replaceDownRevision_plain [OF D1 N2])

  from s(5,6) obtain s0 s' where s0: "s = s0 # s'" "\<not> isWhiteSpace s0" by (cases s) auto
  from b1 obtain h b1' where h: "b1 = h # b1'" "isLineTerminator h" by (cases b1) auto
  let ?y = "'' '' @ s @ b1 @ ?N2 @ c"
  have tw: "takeWhile isWhiteSpace ?y = '' ''"
    using s0 by (simp add: isWhiteSpace_def)
  have dw: "dropWhile isWhiteSpace ?y = s @ b1 @ ?N2 @ c"
    using s0 by (simp add: isWhiteSpace_def)
  have tl: "takeWhile (\<lambda>x. \<not> isLineTerminator x) (s @ b1 @ ?N2 @ c) = s"
    using s(4) h by (simp add: takeWhile_append2 del: append.simps append_Cons) simp
  have dl: "dropWhile (\<lambda>x. \<not> isLineTerminator x) (s @ b1 @ ?N2 @ c) = b1 @ ?N2 @ c"
    using s(4) h by (simp add: dropWhile_append2 del: append.simps append_Cons) simp
  have "searchRevisesFrom True (a @ ''Revises:'' @ ?y) =
      Some (a, ''Revises:'' @ takeWhile isWhiteSpace ?y
                  @ takeWhile (\<lambda>x. \<not> isLineTerminator x) (dropWhile isWhiteSpace ?y),
             dropWhile (\<lambda>x. \<not> isLineTerminator x) (dropWhile isWhiteSpace ?y))"
    by (rule searchRevisesFrom_move [OF H1'])
  then have R2: "searchRevises ((a @ ?S1 @ b1) @ ?N2 @ c) = Some (a, ?S1, b1 @ ?N2 @ c)"
    unfolding tw dw tl dl by (simp add: searchRevises_def)
  have t3: "replaceRevises ((a @ ?S1 @ b1) @ ?N2 @ c) ''Revises:'' = a @ ''Revises:'' @ b1 @ ?N2 @ c"
    by (rule replaceRevises_plain [OF R2]) simp

  have n2: "matchDownRevision (?N2 @ c) = Some (?N2, c)"
    using matchDownRevision_literal [of "'' ''" "'' ''" "CHR 0x22" "CHR 0x22" s c] s(3)
    by (simp add: isWhiteSpace_def isQuote_def)
  have D2: "searchDownRevision (a @ ''Revises:'' @ b1 @ ?N2 @ c) = Some (a @ ''Revises:'' @ b1, ?N2, c)"
    by (rule searchDownRevision_preserved [OF H2' mR _ _ _ n2]) simp_all
  have t4: "replaceDownRevision (a @ ''Revises:'' @ b1 @ ?N2 @ c) ''down_revision = None''
      = (a @ ''Revises:'' @ b1) @ ''down_revision = None'' @ c"
    by (rule replaceDownRevision_plain [OF D2]) simp
  show ?thesis
    unfolding t1 t2 t3 t4 by simp
qed


lemma searchDownRevision_None_iff:
  "searchDownRevision s = None \<longleftrightarrow> (\<forall>v. v \<noteq> [] \<and> suffix v s \<longrightarrow> matchDownRevision v = None)"
proof (induction s)
  case Nil
  show ?case by simp
next
  case (Cons c cs)
  show ?case
  proof (cases "matchDownRevision (c # cs)")
    case (Some ma)
    obtain m a where ma: "ma = (m, a)" by (cases ma)
    from Some have "searchDownRevision (c # cs) = Some ([], m, a)"
      unfolding ma by (rule searchDownRevision_at)
    moreover have "\<not> (\<forall>v. v \<noteq> [] \<and> suffix v (c # cs) \<longrightarrow> matchDownRevision v = None)"
    proof
      assume "\<forall>v. v \<noteq> [] \<and> suffix v (c # cs) \<longrightarrow> matchDownRevision v = None"
      then have "matchDownRevision (c # cs) = None" by simp
      with Some show False by simp
    qed
    ultimately show ?thesis by simp
  next
    case None
    show ?thesis
    proof
      assume "searchDownRevision (c # cs) = None"
      with None have "searchDownRevision cs = None" by simp
      with Cons.IH have IH: "\<And>v. v \<noteq> [] \<Longrightarrow> suffix v cs \<Longrightarrow> matchDownRevision v = None"
        by blast
      show "\<forall>v. v \<noteq> [] \<and> suffix v (c # cs) \<longrightarrow> matchDownRevision v = None"
      proof (intro allI impI, elim conjE)
        fix v assume "v \<noteq> []" "suffix v (c # cs)"
        then consider "v = c # cs" | "v \<noteq> []" "suffix v cs" by (auto simp only: suffix_Cons)
        then show "matchDownRevision v = None"
        proof cases
          case 1
          with None show ?thesis by simp
        next
          case 2
          then show ?thesis by (rule IH)
        qed
      qed
    next
      assume all: "\<forall>v. v \<noteq> [] \<and> suffix v (c # cs) \<longrightarrow> matchDownRevision v = None"
      have "\<forall>v. v \<noteq> [] \<and> suffix v cs \<longrightarrow> matchDownRevision v = None"
      proof (intro allI impI, elim conjE)
        fix v assume v: "v \<noteq> []" "suffix v cs"
        then have "suffix v (c # cs)" by (simp only: suffix_Cons) simp
        with all v(1) show "matchDownRevision v = None" by blast
      qed
      with Cons.IH have "searchDownRevision cs = None" by blast
      with None show "searchDownRevision (c # cs) = None" by simp
    qed
  qed
qed

text \<open>
  When no assignment of a quoted value is found, none is found after the text of the
  \<open>Revises:\<close> match is replaced by a text without quotes in which no match can start.
\<close>

lemma searchDownRevision_None_preserved:
  assumes H: "searchDownRevision (a @ m @ b) = None"
    and m: "m \<noteq> []" "hd m = CHR ''R''"
    and r: "r \<noteq> []" "hd r = CHR ''R''" "\<forall>x\<in>set r. \<not> isQuote x"
    and start: "\<And>v. v \<noteq> [] \<Longrightarrow> suffix v r \<Longrightarrow> assignHead (v @ b) = None"
  shows "searchDownRevision (a @ r @ b) = None"
proof -
  from H have no: "\<And>v. v \<noteq> [] \<Longrightarrow> suffix v (a @ m @ b) \<Longrightarrow> matchDownRevision v = None"
    by (simp add: searchDownRevision_None_iff)
  from m obtain mt where mt: "m = CHR ''R'' # mt" by (cases m) auto
  from r obtain rt where rt: "r = CHR ''R'' # rt" by (cases r) auto
  have "matchDownRevision v = None" if v: "v \<noteq> []" "suffix v (a @ r @ b)" for v
  proof -
    have "suffix v b \<or> (\<exists>v'. v = v' @ b \<and> v' \<noteq> [] \<and> suffix v' r)
        \<or> (\<exists>v'. v = v' @ r @ b \<and> v' \<noteq> [] \<and> suffix v' a)"
    proof -
      from v(2) consider "suffix v (r @ b)" | w where "v = w @ r @ b" "suffix w a"
        by (auto simp: suffix_append)
      then show ?thesis
      proof cases
        case 1
        then consider "suffix v b" | w where "v = w @ b" "suffix w r"
          by (auto simp: suffix_append)
        then show ?thesis
        proof cases
          case 1
          then show ?thesis by simp
        next
          case 2
          then show ?thesis by (cases "w = []") auto
        qed
      next
        case 2
        show ?thesis
        proof (cases "w = []")
          case True
          with 2 r(1) have "v = r @ b \<and> r \<noteq> [] \<and> suffix r r" by simp
          then show ?thesis by blast
        next
          case False
          with 2 show ?thesis by blast
        qed
      qed
    qed
    then consider "suffix v b"
      | v' where "v = v' @ b" "v' \<noteq> []" "suffix v' r"
      | v' where "v = v' @ r @ b" "v' \<noteq> []" "suffix v' a"
      by blast
    then show ?thesis
    proof cases
      case 1
      then have "suffix v (a @ m @ b)" by (simp add: suffix_append)
      from no [OF v(1) this] show ?thesis .
    next
      case 2
      from start [OF 2(2,3)] show ?thesis by (simp add: matchDownRevision_def 2(1))
    next
      case 3
      from 3(3) have "suffix (v' @ m @ b) (a @ m @ b)" by (simp add: suffix_append)
      from no [OF _ this] 3(2) have old: "matchDownRevision (v' @ CHR ''R'' # mt @ b) = None"
        by (simp add: mt)
      show ?thesis
      proof (cases "assignHead v'")
        case None
        from matchDownRevision_stop_None [OF stopChar_R_d(1) _ None, of "rt @ b"]
        show ?thesis by (simp add: 3(1) rt)
      next
        case (Some x)
        have ah: "assignHead (v' @ CHR ''R'' # y) = Some (x @ CHR ''R'' # y)" for y
          using assignHead_stop [OF stopChar_R_d(1), of v' y] Some by simp
        from old have "dropWhile (\<lambda>c. \<not> isQuote c) (x @ CHR ''R'' # mt @ b) = []"
          by (simp only: matchDownRevision_def ah option.case split: list.splits) simp
        then have "\<forall>c\<in>set x \<union> set b. \<not> isQuote c" by auto
        with r(3) have dq: "dropWhile (\<lambda>c. \<not> isQuote c) (x @ CHR ''R'' # rt @ b) = []"
          by (auto simp: rt)
        have "matchDownRevision (v' @ CHR ''R'' # rt @ b) = None"
          by (simp only: matchDownRevision_def ah dq option.case list.case)
        then show ?thesis by (simp add: 3(1) rt)
      qed
    qed
  qed
  then show ?thesis by (simp add: searchDownRevision_None_iff)
qed


lemma modifyDependency_root_no_assignment_steps:
  assumes H1: "searchRevises text = Some (a, m, rest)"
    and H2: "searchDownRevision text = None"
    and s: "CHR ''$'' \<notin> set s" "CHR ''d'' \<notin> set s" "\<forall>x\<in>set s. \<not> isQuote x"
      "\<forall>x\<in>set s. \<not> isLineTerminator x" "s \<noteq> []" "\<not> isWhiteSpace (hd s)"
  shows "replaceDownRevision
           (replaceRevises
              (replaceDownRevision (replaceRevises text (''Revises: '' @ s))
                 (''down_revision = '' @ [CHR 0x22] @ s @ [CHR 0x22]))
              ''Revises:'')
           ''down_revision = None''
         = a @ ''Revises:'' @ rest"
proof -
  let ?S1 = "''Revises: '' @ s"
  from H1 have H1': "searchRevisesFrom True text = Some (a, m, rest)"
    by (simp add: searchRevises_def)
  from searchRevisesFrom_dest [OF H1'] obtain z where tx: "text = a @ m @ rest"
    and rest: "rest = [] \<or> isLineTerminator (hd rest)" and m: "m = ''Revises:'' @ z"
    by blast
  from H2 have H2': "searchDownRevision (a @ m @ rest) = None" unfolding tx .
  have mR: "m \<noteq> []" "hd m = CHR ''R''" unfolding m by simp_all
  have start: "assignHead (v @ rest) = None" if "v \<noteq> []" "suffix v r" "CHR ''d'' \<notin> set r" for v r
  proof -
    from that have "hd v \<in> set r" by (cases v) (auto simp: suffix_def)
    with that have "hd (v @ rest) \<noteq> CHR ''d''" by (cases v) auto
    then show ?thesis by (intro assignHead_hd) simp
  qed
  have t1: "replaceRevises text ?S1 = a @ ?S1 @ rest"
    using replaceRevises_plain [OF H1, of ?S1] s(1) by simp
  have S1: "?S1 \<noteq> []" "hd ?S1 = CHR ''R''" by simp_all
  have S1q: "\<forall>x\<in>set ?S1. \<not> isQuote x" using s(3) by (simp add: isQuote_def)
  have S1d: "CHR ''d'' \<notin> set ?S1" using s(2) by simp
  have D1: "searchDownRevision (a @ ?S1 @ rest) = None"
    by (rule searchDownRevision_None_preserved [OF H2' mR S1 S1q]) (rule start [OF _ _ S1d])
  have t2: "replaceDownRevision (a @ ?S1 @ rest) r = a @ ?S1 @ rest" for r
    using D1 by (simp add: replaceDownRevision_def)
  from s(5,6) obtain s0 s' where s0: "s = s0 # s'" "\<not> isWhiteSpace s0" by (cases s) auto
  let ?y = "'' '' @ s @ rest"
  have tw: "takeWhile isWhiteSpace ?y = '' ''"
    using s0 by (simp add: isWhiteSpace_def)
  have dw: "dropWhile isWhiteSpace ?y = s @ rest"
    using s0 by (simp add: isWhiteSpace_def)
  have sl: "\<And>x. x \<in> set s \<Longrightarrow> \<not> isLineTerminator x" using s(4) by blast
  have r0: "takeWhile (\<lambda>x. \<not> isLineTerminator x) rest = []"
    "dropWhile (\<lambda>x. \<not> isLineTerminator x) rest = rest"
    using rest by (cases rest; simp)+
  have tl: "takeWhile (\<lambda>x. \<not> isLineTerminator x) (s @ rest) = s"
    by (simp only: takeWhile_append2 [of s, OF sl] r0 append_Nil2)
  have dl: "dropWhile (\<lambda>x. \<not> isLineTerminator x) (s @ rest) = rest"
    by (simp only: dropWhile_append2 [of s, OF sl] r0)
  have "searchRevisesFrom True (a @ ''Revises:'' @ ?y) =
      Some (a, ''Revises:'' @ takeWhile isWhiteSpace ?y
                  @ takeWhile (\<lambda>x. \<not> isLineTerminator x) (dropWhile isWhiteSpace ?y),
             dropWhile (\<lambda>x. \<not> isLineTerminator x) (dropWhile isWhiteSpace ?y))"
    by (rule searchRevisesFrom_move [OF H1'])
  then have R2: "searchRevises (a @ ?S1 @ rest) = Some (a, ?S1, rest)"
    unfolding tw dw tl dl by (simp add: searchRevises_def)
  have t3: "replaceRevises (a @ ?S1 @ rest) ''Revises:'' = a @ ''Revises:'' @ rest"
    by (rule replaceRevises_plain [OF R2]) simp
  have D2: "searchDownRevision (a @ ''Revises:'' @ rest) = None"
  proof (rule searchDownRevision_None_preserved [OF H2' mR])
    show "\<forall>x\<in>set ''Revises:''. \<not> isQuote x" by (simp add: isQuote_def)
    show "assignHead (v @ rest) = None" if "v \<noteq> []" "suffix v ''Revises:''" for v
      using that by (rule start) simp
  qed simp_all
  have t4: "replaceDownRevision (a @ ''Revises:'' @ rest) r = a @ ''Revises:'' @ rest" for r
    using D2 by (simp add: replaceDownRevision_def)
  show ?thesis
    unfolding t1 t2 t3 t4 ..
qed

lemma searchRevisesFrom_line_start:
  "searchRevisesFrom f t = Some (a, m, b) \<Longrightarrow>
     (a = [] \<and> f) \<or> (a \<noteq> [] \<and> isLineTerminator (last a))"
proof (induction t arbitrary: f a)
  case Nil
  then show ?case by simp
next
  case (Cons c cs)
  show ?case
  proof (cases "f \<and> prefix ''Revises:'' (c # cs)")
    case True
    with Cons.prems show ?thesis by simp
  next
    case False
    with Cons.prems obtain a' where a': "a = c # a'"
      and rec: "searchRevisesFrom (isLineTerminator c) cs = Some (a', m, b)"
      by (auto split: if_splits)
    from Cons.IH [OF rec] show ?thesis by (auto simp: a')
  qed
qed

lemma modifyDependency_root_cases:
  assumes "newParent = ''<base>'' \<or> newParent = ''None''"
    and "searchRevises text = Some (a, m, rest)"
  shows "(searchDownRevision text = Some (a @ m @ b1, m2, c) \<longrightarrow>
            modifyDependency text newParent
              = a @ ''Revises:'' @ b1 @ ''down_revision = None'' @ c)
       \<and> (searchDownRevision text = None \<longrightarrow>
            modifyDependency text newParent = a @ ''Revises:'' @ rest)"
proof (intro conjI impI)
  assume d: "searchDownRevision text = Some (a @ m @ b1, m2, c)"
  have "replaceDownRevision
           (replaceRevises
              (replaceDownRevision (replaceRevises text (''Revises: '' @ newParent))
                 (''down_revision = '' @ [CHR 0x22] @ newParent @ [CHR 0x22]))
              ''Revises:'')
           ''down_revision = None''
         = a @ ''Revises:'' @ b1 @ ''down_revision = None'' @ c"
    using assms(1)
    by (intro modifyDependency_root_steps [OF assms(2) d])
       (auto simp: isQuote_def isLineTerminator_def isWhiteSpace_def)
  with assms(1) show "modifyDependency text newParent
              = a @ ''Revises:'' @ b1 @ ''down_revision = None'' @ c"
    unfolding modifyDependency_def Let_def by (simp only: if_True)
next
  assume d: "searchDownRevision text = None"
  have "replaceDownRevision
           (replaceRevises
              (replaceDownRevision (replaceRevises text (''Revises: '' @ newParent))
                 (''down_revision = '' @ [CHR 0x22] @ newParent @ [CHR 0x22]))
              ''Revises:'')
           ''down_revision = None''
         = a @ ''Revises:'' @ rest"
    using assms(1)
    by (intro modifyDependency_root_no_assignment_steps [OF assms(2) d])
       (auto simp: isQuote_def isLineTerminator_def isWhiteSpace_def)
  with assms(1) show "modifyDependency text newParent = a @ ''Revises:'' @ rest"
    unfolding modifyDependency_def Let_def by (simp only: if_True)
qed

section \<open>Rewriting to the root\<close>

text \<open>
  Claim C3, as the code has it. Let the new parent be \<^verbatim>\<open><base>\<close> or \<^verbatim>\<open>None\<close>, and let the
  match of the \<^verbatim>\<open>Revises:\<close> pattern stay on its line: \<open>m\<close> starts with the keyword at a line
  start, has no line break in it and runs to the end of the line. When the first assignment
  of a quoted value to \<^verbatim>\<open>down_revision\<close> comes after that line, the result has \<^verbatim>\<open>Revises:\<close>
  as that line and \<^verbatim>\<open>down_revision = None\<close> in place of that assignment. When the text has
  no assignment of a quoted value, the result has \<^verbatim>\<open>Revises:\<close> as that line. The text before
  the line and the rest of the text after it are as they were.
\<close>

theorem modifyDependency_root_rewrites_both:
  assumes "newParent = ''<base>'' \<or> newParent = ''None''"
    and "searchRevises text = Some (a, m, rest)"
    and "\<forall>x\<in>set m. \<not> isLineTerminator x"
  shows "text = a @ m @ rest
       \<and> (a = [] \<or> isLineTerminator (last a))
       \<and> prefix ''Revises:'' m
       \<and> m = takeWhile (\<lambda>x. \<not> isLineTerminator x) (m @ rest)
       \<and> (searchDownRevision text = Some (a @ m @ b1, m2, c) \<longrightarrow>
            modifyDependency text newParent
              = a @ ''Revises:'' @ b1 @ ''down_revision = None'' @ c)
       \<and> (searchDownRevision text = None \<longrightarrow>
            modifyDependency text newParent = a @ ''Revises:'' @ rest)"
proof -
  from assms(2) have s: "searchRevisesFrom True text = Some (a, m, rest)"
    by (simp add: searchRevises_def)
  from searchRevisesFrom_dest [OF s]
  have tx: "text = a @ m @ rest" and r: "rest = [] \<or> isLineTerminator (hd rest)"
    and p: "prefix ''Revises:'' m"
    by auto
  from r have "takeWhile (\<lambda>x. \<not> isLineTerminator x) rest = []" by (cases rest) auto
  with assms(3) have line: "m = takeWhile (\<lambda>x. \<not> isLineTerminator x) (m @ rest)"
    by (simp add: takeWhile_append2)
  from searchRevisesFrom_line_start [OF s]
  have st: "a = [] \<or> isLineTerminator (last a)" by blast
  note cases = modifyDependency_root_cases [OF assms(1,2), of b1 m2 c]
  from tx st p line cases show ?thesis by (intro conjI) blast+
qed

theorem modifyDependency_root_rewrites_both_witness:
  "searchRevises
     (''Revision ID: abc\<newline>Revises: def\<newline>Create Date: 2024\<newline>\<newline>down_revision = ''
        @ CHR 0x27 # ''def'' @ CHR 0x27 # ''\<newline>branch_labels = None'')
     = Some (''Revision ID: abc\<newline>'', ''Revises: def'',
         ''\<newline>Create Date: 2024\<newline>\<newline>down_revision = ''
           @ CHR 0x27 # ''def'' @ CHR 0x27 # ''\<newline>branch_labels = None'')
   \<and> searchDownRevision
     (''Revision ID: abc\<newline>Revises: def\<newline>Create Date: 2024\<newline>\<newline>down_revision = ''
        @ CHR 0x27 # ''def'' @ CHR 0x27 # ''\<newline>branch_labels = None'')
     = Some (''Revision ID: abc\<newline>'' @ ''Revises: def'' @ ''\<newline>Create Date: 2024\<newline>\<newline>'',
         ''down_revision = '' @ CHR 0x27 # ''def'' @ [CHR 0x27], ''\<newline>branch_labels = None'')
   \<and> modifyDependency
     (''Revision ID: abc\<newline>Revises: def\<newline>Create Date: 2024\<newline>\<newline>down_revision = ''
        @ CHR 0x27 # ''def'' @ CHR 0x27 # ''\<newline>branch_labels = None'')
     ''<base>''
     = ''Revision ID: abc\<newline>Revises:\<newline>Create Date: 2024\<newline>\<newline>down_revision = None\<newline>branch_labels = None''
   \<and> searchRevises ''Revises: def\<newline>down_revision = None\<newline>''
     = Some ([], ''Revises: def'', ''\<newline>down_revision = None\<newline>'')
   \<and> searchDownRevision ''Revises: def\<newline>down_revision = None\<newline>'' = None
   \<and> modifyDependency ''Revises: def\<newline>down_revision = None\<newline>'' ''None''
     = ''Revises:\<newline>down_revision = None\<newline>''"
proof -
  have h1: "searchRevises
     (''Revision ID: abc\<newline>Revises: def\<newline>Create Date: 2024\<newline>\<newline>down_revision = ''
        @ CHR 0x27 # ''def'' @ CHR 0x27 # ''\<newline>branch_labels = None'')
     = Some (''Revision ID: abc\<newline>'', ''Revises: def'',
         ''\<newline>Create Date: 2024\<newline>\<newline>down_revision = ''
           @ CHR 0x27 # ''def'' @ CHR 0x27 # ''\<newline>branch_labels = None'')"
    by code_simp
  have h2: "searchDownRevision
     (''Revision ID: abc\<newline>Revises: def\<newline>Create Date: 2024\<newline>\<newline>down_revision = ''
        @ CHR 0x27 # ''def'' @ CHR 0x27 # ''\<newline>branch_labels = None'')
     = Some (''Revision ID: abc\<newline>'' @ ''Revises: def'' @ ''\<newline>Create Date: 2024\<newline>\<newline>'',
         ''down_revision = '' @ CHR 0x27 # ''def'' @ [CHR 0x27], ''\<newline>branch_labels = None'')"
    by code_simp
  have h3: "searchRevises ''Revises: def\<newline>down_revision = None\<newline>''
     = Some ([], ''Revises: def'', ''\<newline>down_revision = None\<newline>'')"
    by code_simp
  have h4: "searchDownRevision ''Revises: def\<newline>down_revision = None\<newline>'' = None"
    by code_simp
  have l: "\<forall>x\<in>set ''Revises: def''. \<not> isLineTerminator x"
    by (simp add: isLineTerminator_def)
  have s1: "''<base>'' = ''<base>'' \<or> ''<base>'' = ''None''" by simp
  have s2: "''None'' = ''<base>'' \<or> ''None'' = ''None''" by simp
  note t1 = modifyDependency_root_rewrites_both [OF s1 h1 l,
      of "''\<newline>Create Date: 2024\<newline>\<newline>''" "''down_revision = '' @ CHR 0x27 # ''def'' @ [CHR 0x27]"
         "''\<newline>branch_labels = None''"]
  note t2 = modifyDependency_root_rewrites_both [OF s2 h3 l, of "[]" "[]" "[]"]
  from t1 h2 have r1: "modifyDependency
     (''Revision ID: abc\<newline>Revises: def\<newline>Create Date: 2024\<newline>\<newline>down_revision = ''
        @ CHR 0x27 # ''def'' @ CHR 0x27 # ''\<newline>branch_labels = None'')
     ''<base>''
     = ''Revision ID: abc\<newline>Revises:\<newline>Create Date: 2024\<newline>\<newline>down_revision = None\<newline>branch_labels = None''"
    by simp
  from t2 h4 have r2: "modifyDependency ''Revises: def\<newline>down_revision = None\<newline>'' ''None''
     = ''Revises:\<newline>down_revision = None\<newline>''"
    by simp
  from h1 h2 r1 h3 h4 r2 show ?thesis by (intro conjI)
qed

text \<open>
  Claim C3 as stated fails for a text whose assignment the pattern does not match. The
  revision file of a merge assigns a tuple; with the new parent \<^verbatim>\<open><base>\<close> the line
  \<^verbatim>\<open>Revises:\<close> is emptied and the assignment keeps both identifiers.
\<close>

theorem modifyDependency_root_tuple_counterexample:
  "modifyDependency
     (''Revises: abc123, def456\<newline>down_revision = ('' @ CHR 0x27 # ''abc123'' @ CHR 0x27
        # '', '' @ CHR 0x27 # ''def456'' @ CHR 0x27 # '')\<newline>'')
     ''<base>''
   = ''Revises:\<newline>down_revision = ('' @ CHR 0x27 # ''abc123'' @ CHR 0x27
        # '', '' @ CHR 0x27 # ''def456'' @ CHR 0x27 # '')\<newline>''"
  by code_simp

section \<open>Rewriting a root revision\<close>

text \<open>
  Claim C10 against the code. The text below is the head of the file of a root revision:
  nothing follows \<^verbatim>\<open>Revises:\<close> on its line and the assignment is \<^verbatim>\<open>down_revision = None\<close>.
  With the new parent \<open>4d5e6f\<close> the assignment stays as it is, but the white space that
  the \<^verbatim>\<open>Revises:\<close> pattern skips includes the line break, so the match runs over the next
  line and the \<^verbatim>\<open>Create Date:\<close> line is lost with it. In the second text the next line is
  the assignment, which is lost in the same way.
\<close>

theorem modifyDependency_blank_revises_eats_next_line:
  "modifyDependency
     ''Revision ID: 1a2b3c\<newline>Revises: \<newline>Create Date: 2024-01-01\<newline>\<newline>down_revision = None\<newline>''
     ''4d5e6f''
   = ''Revision ID: 1a2b3c\<newline>Revises: 4d5e6f\<newline>\<newline>down_revision = None\<newline>''
   \<and> modifyDependency ''Revises:\<newline>down_revision = None\<newline>'' ''4d5e6f''
   = ''Revises: 4d5e6f\<newline>''"
  by code_simp

end
